theory Spec2Isabelle
  imports Complex_Main "HOL-Library.Word" "HOL-Library.Sublist"
begin

section \<open>The document tree\<close>

text \<open>
  A JavaScript string is a sequence of 16-bit code units; \<open>length\<close> and every offset
  of the scanner count code units. Tag names and CSS values are plain ASCII strings.
\<close>

type_synonym jsstring = "16 word list"

definition utf16 :: "string \<Rightarrow> jsstring" where
  "utf16 s = map of_char s"

text \<open>
  The computed style of an element, as \<open>window.getComputedStyle\<close> hands it to the
  scanner. \<open>opacity\<close> and \<open>fontSize\<close> hold the number that \<open>parseFloat\<close> reads from
  the property (\<open>None\<close> for NaN); a property the browser does not know is \<open>None\<close>.
\<close>

record css_style =
  display :: string
  position :: string
  visibility :: string
  opacity :: "real option"
  fontSize :: "real option"
  color :: "string option"
  webkitTextFillColor :: "string option"
  whiteSpace :: string
  userSelect :: "string option"
  webkitUserSelect :: "string option"
  MozUserSelect :: "string option"
  msUserSelect :: "string option"

text \<open>
  What a node carries besides its children: a text node its \<open>nodeValue\<close>, an element its
  \<open>nodeName\<close> and computed style, any other node (document, comment, ...) its
  \<open>nodeName\<close>.
\<close>

datatype label =
    TextLabel jsstring
  | ElementLabel string css_style
  | OtherLabel string

datatype dom = Node label "dom list"

text \<open>
  A node of a document is a subtree together with its surroundings up to the root: for
  every ancestor, the siblings to the left (nearest first), the ancestor's label and the
  siblings to the right. The tree is finite and acyclic by construction, and the five
  links of the DOM are total functions.
\<close>

datatype crumb = Crumb "dom list" label "dom list"

type_synonym node = "dom \<times> crumb list"

datatype node_type = ELEMENT_NODE | TEXT_NODE | OTHER_NODE

fun nodeLabel :: "node \<Rightarrow> label" where
  "nodeLabel (Node l cs, ctx) = l"

fun childNodes :: "node \<Rightarrow> dom list" where
  "childNodes (Node l cs, ctx) = cs"

definition nodeType :: "node \<Rightarrow> node_type" where
  "nodeType n = (case nodeLabel n of
      TextLabel v \<Rightarrow> TEXT_NODE
    | ElementLabel name st \<Rightarrow> ELEMENT_NODE
    | OtherLabel name \<Rightarrow> OTHER_NODE)"

definition nodeName :: "node \<Rightarrow> string" where
  "nodeName n = (case nodeLabel n of
      TextLabel v \<Rightarrow> ''#text''
    | ElementLabel name st \<Rightarrow> name
    | OtherLabel name \<Rightarrow> name)"

text \<open>\<open>nodeValue\<close> is read on text nodes only (it is \<open>null\<close> on an element).\<close>

definition nodeValue :: "node \<Rightarrow> jsstring" where
  "nodeValue n = (case nodeLabel n of
      TextLabel v \<Rightarrow> v
    | ElementLabel name st \<Rightarrow> []
    | OtherLabel name \<Rightarrow> [])"

text \<open>\<open>window.getComputedStyle(element)\<close>; \<open>None\<close> on a node that is no element.\<close>

definition getComputedStyle :: "node \<Rightarrow> css_style option" where
  "getComputedStyle n = (case nodeLabel n of
      TextLabel v \<Rightarrow> None
    | ElementLabel name st \<Rightarrow> Some st
    | OtherLabel name \<Rightarrow> None)"

fun firstChild :: "node \<Rightarrow> node option" where
  "firstChild (Node l [], ctx) = None"
| "firstChild (Node l (c # cs), ctx) = Some (c, Crumb [] l cs # ctx)"

fun lastChild :: "node \<Rightarrow> node option" where
  "lastChild (Node l cs, ctx) =
     (if cs = [] then None else Some (last cs, Crumb (rev (butlast cs)) l [] # ctx))"

fun nextSibling :: "node \<Rightarrow> node option" where
  "nextSibling (t, Crumb ls l (r # rs) # ctx) = Some (r, Crumb (t # ls) l rs # ctx)"
| "nextSibling (t, ctx) = None"

fun previousSibling :: "node \<Rightarrow> node option" where
  "previousSibling (t, Crumb (p # ls) l rs # ctx) = Some (p, Crumb ls l (t # rs) # ctx)"
| "previousSibling (t, ctx) = None"

fun parentNode :: "node \<Rightarrow> node option" where
  "parentNode (t, Crumb ls l rs # ctx) = Some (Node l (rev ls @ t # rs), ctx)"
| "parentNode (t, []) = None"

text \<open>The root of a document, and the node reached from a node along child indices.\<close>

definition document :: "dom \<Rightarrow> node" where
  "document t = (t, [])"

fun nthChild :: "node \<Rightarrow> nat \<Rightarrow> node option" where
  "nthChild (Node l cs, ctx) i =
     (if i < length cs
      then Some (cs ! i, Crumb (rev (take i cs)) l (drop (Suc i) cs) # ctx)
      else None)"

fun descend :: "node \<Rightarrow> nat list \<Rightarrow> node option" where
  "descend n [] = Some n"
| "descend n (i # is) = (case nthChild n i of None \<Rightarrow> None | Some c \<Rightarrow> descend c is)"


section \<open>Reading code points\<close>

definition isHighSurrogate :: "16 word \<Rightarrow> bool" where
  "isHighSurrogate u = (0xD800 \<le> u \<and> u < 0xDC00)"

definition isLowSurrogate :: "16 word \<Rightarrow> bool" where
  "isLowSurrogate u = (0xDC00 \<le> u \<and> u < 0xE000)"

text \<open>\<open>text[position]\<close>: the code unit at an index, \<open>None\<close> outside the string.\<close>

definition codeUnitAt :: "jsstring \<Rightarrow> int \<Rightarrow> 16 word option" where
  "codeUnitAt text i =
     (if 0 \<le> i \<and> i < int (length text) then Some (text ! nat i) else None)"

text \<open>
  Modelled from the spec: \<open>StringUtil.readCodePointsForward\<close> and
  \<open>StringUtil.readCodePointsBackward\<close> (imported from \<open>string-util.js\<close>) are not among
  the sources. The spec (section 6) asks for a primitive that reads N Unicode code points
  forward or backward from a string index and returns the substring, without splitting a
  surrogate pair. Forward, the code point starts at the index; backward, it ends
  there. A high surrogate followed by a low surrogate is one code point of two code
  units, every other code unit is a code point of its own, and nothing is read from an
  index outside the string.
\<close>

fun readCodePointsForward :: "jsstring \<Rightarrow> int \<Rightarrow> nat \<Rightarrow> jsstring" where
  "readCodePointsForward text i 0 = []"
| "readCodePointsForward text i (Suc count) =
     (case codeUnitAt text i of
        None \<Rightarrow> []
      | Some u \<Rightarrow>
          (case codeUnitAt text (i + 1) of
             None \<Rightarrow> [u]
           | Some v \<Rightarrow>
               if isHighSurrogate u \<and> isLowSurrogate v
               then u # v # readCodePointsForward text (i + 2) count
               else u # readCodePointsForward text (i + 1) count))"

fun readCodePointsBackward :: "jsstring \<Rightarrow> int \<Rightarrow> nat \<Rightarrow> jsstring" where
  "readCodePointsBackward text i 0 = []"
| "readCodePointsBackward text i (Suc count) =
     (case codeUnitAt text i of
        None \<Rightarrow> []
      | Some u \<Rightarrow>
          (case codeUnitAt text (i - 1) of
             None \<Rightarrow> [u]
           | Some v \<Rightarrow>
               if isLowSurrogate u \<and> isHighSurrogate v
               then readCodePointsBackward text (i - 2) count @ [v, u]
               else readCodePointsBackward text (i - 1) count @ [u]))"


section \<open>Static helpers of DOMTextScanner\<close>

text \<open>\<open>String.prototype.toUpperCase\<close> on an ASCII name.\<close>

definition toUpperCaseChar :: "char \<Rightarrow> char" where
  "toUpperCaseChar ch =
     (if (97::nat) \<le> of_char ch \<and> of_char ch \<le> (122::nat)
      then char_of (of_char ch - (32::nat)) else ch)"

definition toUpperCase :: "string \<Rightarrow> string" where
  "toUpperCase s = map toUpperCaseChar s"

text \<open>\<open>String.prototype.indexOf\<close> for a single character: \<open>-1\<close> when it is absent.\<close>

fun indexOf :: "string \<Rightarrow> char \<Rightarrow> int" where
  "indexOf [] ch = -1"
| "indexOf (x # xs) ch =
     (if x = ch then 0 else (let i = indexOf xs ch in if 0 \<le> i then i + 1 else -1))"

text \<open>\<open>cssDisplay.substring(0, pos)\<close> for \<open>pos \<ge> 0\<close>.\<close>

definition substring0 :: "string \<Rightarrow> int \<Rightarrow> string" where
  "substring0 s pos = take (nat pos) s"

definition doesCSSDisplayChangeLayout :: "string \<Rightarrow> bool" where
  "doesCSSDisplayChangeLayout cssDisplay =
     (let pos = indexOf cssDisplay CHR '' '';
          cssDisplay1 = (if 0 \<le> pos then substring0 cssDisplay pos else cssDisplay);
          pos1 = indexOf cssDisplay1 CHR ''-'';
          cssDisplay2 = (if 0 \<le> pos1 then substring0 cssDisplay1 pos1 else cssDisplay1)
      in if cssDisplay2 = ''block'' \<or> cssDisplay2 = ''flex'' \<or> cssDisplay2 = ''grid''
            \<or> cssDisplay2 = ''list'' \<or> cssDisplay2 = ''table''
         then True
         else if cssDisplay2 = ''ruby'' then 0 \<le> pos1
         else False)"

text \<open>
  The regular expression \<open>/,\s*0.?0*\)$/\<close> of \<open>isCSSColorTransparent\<close>, read from the
  end of the string: a closing parenthesis, zeros, at most one arbitrary character that
  is no line terminator, a zero, white space, a comma.
\<close>

definition isRegexSpace :: "char \<Rightarrow> bool" where
  "isRegexSpace ch = (ch \<in> {CHR 0x09, CHR 0x0A, CHR 0x0B, CHR 0x0C, CHR 0x0D, CHR '' '', CHR 0xA0})"

definition isLineTerminator :: "char \<Rightarrow> bool" where
  "isLineTerminator ch = (ch = CHR 0x0A \<or> ch = CHR 0x0D)"

fun matchZeroSpaceComma :: "string \<Rightarrow> bool" where
  "matchZeroSpaceComma (z # r) = (z = CHR ''0'' \<and> (case dropWhile isRegexSpace r of
       [] \<Rightarrow> False | k # r' \<Rightarrow> k = CHR '',''))"
| "matchZeroSpaceComma [] = False"

fun matchAnyZeroSpaceComma :: "string \<Rightarrow> bool" where
  "matchAnyZeroSpaceComma r =
     (matchZeroSpaceComma r \<or>
      (case r of [] \<Rightarrow> False | a # r' \<Rightarrow> \<not> isLineTerminator a \<and> matchZeroSpaceComma r'))"

fun matchZeros :: "string \<Rightarrow> bool" where
  "matchZeros r =
     (matchAnyZeroSpaceComma r \<or>
      (case r of [] \<Rightarrow> False | z # r' \<Rightarrow> z = CHR ''0'' \<and> matchZeros r'))"

definition matchTransparentAlpha :: "string \<Rightarrow> bool" where
  "matchTransparentAlpha s =
     (case rev s of [] \<Rightarrow> False | p # r \<Rightarrow> p = CHR '')'' \<and> matchZeros r)"

definition startsWith :: "string \<Rightarrow> string \<Rightarrow> bool" where
  "startsWith s p = (take (length p) s = p)"

definition isCSSColorTransparent :: "string option \<Rightarrow> bool" where
  "isCSSColorTransparent cssColor =
     (case cssColor of
        None \<Rightarrow> False
      | Some s \<Rightarrow> startsWith s ''rgba('' \<and> matchTransparentAlpha s)"

definition isStyleSelectable :: "css_style \<Rightarrow> bool" where
  "isStyleSelectable st =
     (\<not> (userSelect st = Some ''none'' \<or>
         webkitUserSelect st = Some ''none'' \<or>
         MozUserSelect st = Some ''none'' \<or>
         msUserSelect st = Some ''none''))"

text \<open>\<open>x <= 0\<close> on a JavaScript number: false on NaN.\<close>

definition leZero :: "real option \<Rightarrow> bool" where
  "leZero x = (case x of None \<Rightarrow> False | Some r \<Rightarrow> r \<le> 0)"

definition isStyleVisible :: "css_style \<Rightarrow> bool" where
  "isStyleVisible st =
     (\<not> (visibility st = ''hidden'' \<or>
         leZero (opacity st) \<or>
         leZero (fontSize st) \<or>
         (\<not> isStyleSelectable st \<and>
          (isCSSColorTransparent (color st) \<or>
           isCSSColorTransparent (webkitTextFillColor st)))))"

text \<open>
  \<open>getElementSeekInfo\<close> returns the pair \<open>{enterable, newlines}\<close>. It is called on
  elements only; on another node there is no computed style to read, and the model
  answers as for an invisible element.
\<close>

definition getElementSeekInfo :: "node \<Rightarrow> bool \<times> int" where
  "getElementSeekInfo element =
     (let name = toUpperCase (nodeName element) in
      if name = ''HEAD'' \<or> name = ''RT'' \<or> name = ''SCRIPT'' \<or> name = ''STYLE'' then (False, 0)
      else if name = ''BR'' then (False, 1)
      else
        (let enterable = (if name = ''TEXTAREA'' \<or> name = ''INPUT'' \<or> name = ''BUTTON''
                          then False else True)
         in case getComputedStyle element of
              None \<Rightarrow> (False, 0)
            | Some st \<Rightarrow>
                (let visible = (display st \<noteq> ''none'' \<and> isStyleVisible st) in
                 if \<not> visible then (False, 0)
                 else
                   (let newlines = (if position st = ''absolute'' \<or> position st = ''fixed''
                                       \<or> position st = ''sticky'' then 2 else 0);
                        newlines1 = (if newlines = 0 \<and> doesCSSDisplayChangeLayout (display st)
                                     then 1 else newlines)
                    in (enterable, newlines1)))))"

text \<open>
  \<open>getCharacterAttributes\<close>: 0 for a character to ignore, 1 for collapsible white space,
  2 for a significant character, 3 for a preserved newline. \<open>charCodeAt(0)\<close> of the empty
  string is NaN, which takes the default branch.
\<close>

definition getCharacterAttributes :: "jsstring \<Rightarrow> bool \<Rightarrow> bool \<Rightarrow> nat" where
  "getCharacterAttributes character preserveNewlines preserveWhitespace =
     (case character of
        [] \<Rightarrow> 2
      | u # us \<Rightarrow>
          if u = 0x09 \<or> u = 0x0C \<or> u = 0x0D \<or> u = 0x20
          then (if preserveWhitespace then 2 else 1)
          else if u = 0x0A then (if preserveNewlines then 3 else 1)
          else if u = 0x200B \<or> u = 0x200C then 0
          else 2)"

function getParentElement :: "node option \<Rightarrow> node option" where
  "getParentElement nd =
     (case nd of
        None \<Rightarrow> None
      | Some n \<Rightarrow> if nodeType n = ELEMENT_NODE then Some n else getParentElement (parentNode n))"
  by pat_completeness auto
termination
proof (relation "measure (\<lambda>nd. case nd of None \<Rightarrow> 0 | Some n \<Rightarrow> Suc (length (snd n)))")
  show "wf (measure (\<lambda>nd. case nd of None \<Rightarrow> 0 | Some n \<Rightarrow> Suc (length (snd n))))"
    by simp
next
  fix nd :: "node option" and n :: node
  assume "nd = Some n"
  obtain t ctx where n: "n = (t, ctx)" by (cases n)
  show "(parentNode n, nd)
      \<in> measure (\<lambda>nd. case nd of None \<Rightarrow> 0 | Some n \<Rightarrow> Suc (length (snd n)))"
    using \<open>nd = Some n\<close> n by (cases "(t, ctx)" rule: parentNode.cases) auto
qed

definition getParentRubyElement :: "node \<Rightarrow> node option" where
  "getParentRubyElement n =
     (case getParentElement (Some n) of
        None \<Rightarrow> None
      | Some node2 \<Rightarrow>
          if toUpperCase (nodeName node2) = ''RT''
          then (case parentNode node2 of
                  None \<Rightarrow> None
                | Some node3 \<Rightarrow> if toUpperCase (nodeName node3) = ''RUBY'' then Some node3 else None)
          else None)"

text \<open>
  \<open>getNextNode\<close>: the loop that climbs from a node until a sibling is found, recording
  every node it leaves, and the function itself. The result is the next node (\<open>None\<close>
  for \<open>null\<close>) and the array \<open>exitedNodes\<close> after the pushes.
\<close>

function getNextNode_climb :: "node \<Rightarrow> bool \<Rightarrow> node list \<Rightarrow> node option \<times> node list" where
  "getNextNode_climb n forward exitedNodes =
     (let exitedNodes1 = exitedNodes @ [n] in
      case (if forward then nextSibling n else previousSibling n) of
        Some next \<Rightarrow> (Some next, exitedNodes1)
      | None \<Rightarrow>
          (case parentNode n of
             None \<Rightarrow> (None, exitedNodes1)
           | Some p \<Rightarrow> getNextNode_climb p forward exitedNodes1))"
  by pat_completeness auto
termination
proof (relation "measure (\<lambda>(n, forward, exitedNodes). length (snd n))")
  show "wf (measure (\<lambda>(n::node, forward::bool, exitedNodes::node list). length (snd n)))"
    by simp
next
  fix n :: node and forward :: bool and exitedNodes x :: "node list" and p :: node
  assume "parentNode n = Some p"
  then show "((p, forward, x), (n, forward, exitedNodes))
      \<in> measure (\<lambda>(n, forward, exitedNodes). length (snd n))"
    by (cases n rule: parentNode.cases) auto
qed

definition getNextNode :: "node \<Rightarrow> bool \<Rightarrow> bool \<Rightarrow> node list \<Rightarrow> node option \<times> node list" where
  "getNextNode n forward visitChildren exitedNodes =
     (case (if visitChildren then (if forward then firstChild n else lastChild n) else None) of
        Some next \<Rightarrow> (Some next, exitedNodes)
      | None \<Rightarrow> getNextNode_climb n forward exitedNodes)"


section \<open>The cursor\<close>

text \<open>
  The fields of a \<open>DOMTextScanner\<close>. Numbers of JavaScript are integers here: the
  scanner only adds, subtracts and compares them.
\<close>

record cursor =
  node :: node
  offset :: int
  content :: jsstring
  remainder :: int
  resetOffset :: bool
  newlines :: int
  lineHasWhitespace :: bool
  lineHasContent :: bool
  forcePreserveWhitespace :: bool
  generateLayoutContent :: bool

text \<open>The constructor. Its last two parameters default to \<open>false\<close> and \<open>true\<close>.\<close>

definition DOMTextScanner :: "node \<Rightarrow> int \<Rightarrow> bool \<Rightarrow> bool \<Rightarrow> cursor" where
  "DOMTextScanner n off forcePreserve generateLayout =
     (let ruby = getParentRubyElement n;
          reset = (ruby \<noteq> None);
          n1 = (case ruby of None \<Rightarrow> n | Some r \<Rightarrow> r)
      in \<lparr> node = n1, offset = off, content = [], remainder = 0, resetOffset = reset,
           newlines = 0, lineHasWhitespace = False, lineHasContent = False,
           forcePreserveWhitespace = forcePreserve, generateLayoutContent = generateLayout \<rparr>)"

text \<open>\<open>_getWhitespaceSettings\<close> returns \<open>(preserveNewlines, preserveWhitespace)\<close>.\<close>

definition getWhitespaceSettings :: "cursor \<Rightarrow> node \<Rightarrow> bool \<times> bool" where
  "getWhitespaceSettings c textNode =
     (if forcePreserveWhitespace c then (True, True)
      else
        (case getParentElement (Some textNode) of
           None \<Rightarrow> (False, False)
         | Some element \<Rightarrow>
             (case getComputedStyle element of
                None \<Rightarrow> (False, False)
              | Some st \<Rightarrow>
                  if whiteSpace st = ''pre'' \<or> whiteSpace st = ''pre-wrap''
                     \<or> whiteSpace st = ''break-spaces''
                  then (True, True)
                  else if whiteSpace st = ''pre-line'' then (True, False)
                  else (False, False))))"

text \<open>
  \<open>_checkCharacterForward\<close> and \<open>_checkCharacterBackward\<close> return the boolean of the
  source together with the cursor after the call. Each is split where the source falls
  through from the pending newlines to the character itself: \<open>emitCharacter...\<close> is the
  part from \<open>this._lineHasContent = (charAttributes === 2)\<close> to the end of the case, and
  \<open>appendCharacter\<close> (\<open>prependCharacter\<close>) its last statements, which add the character.
  \<open>'\n'.repeat(useNewlineCount)\<close> is reached with a positive remainder in every call
  that \<open>seek\<close> makes, so the count is positive there.
\<close>

definition appendCharacter :: "cursor \<Rightarrow> jsstring \<Rightarrow> bool \<times> cursor" where
  "appendCharacter c char =
     (let c1 = c\<lparr>content := content c @ char, remainder := remainder c - 1\<rparr>
      in (remainder c1 \<le> 0, c1))"

definition emitCharacterForward :: "cursor \<Rightarrow> jsstring \<Rightarrow> nat \<Rightarrow> bool \<times> cursor" where
  "emitCharacterForward c char charAttributes =
     (let c1 = c\<lparr>lineHasContent := (charAttributes = 2)\<rparr> in
      if lineHasWhitespace c1
      then
        (if lineHasContent c1
         then
           (let c2 = c1\<lparr>content := content c1 @ [0x20], lineHasWhitespace := False,
                         remainder := remainder c1 - 1\<rparr>
            in if remainder c2 \<le> 0
               then (True, c2\<lparr>offset := offset c2 - int (length char)\<rparr>)
               else appendCharacter c2 char)
         else appendCharacter (c1\<lparr>lineHasWhitespace := False\<rparr>) char)
      else appendCharacter c1 char)"

definition checkCharacterForward :: "cursor \<Rightarrow> jsstring \<Rightarrow> nat \<Rightarrow> bool \<times> cursor" where
  "checkCharacterForward c char charAttributes =
     (if charAttributes = 1 then (False, c\<lparr>lineHasWhitespace := True\<rparr>)
      else if charAttributes = 2 \<or> charAttributes = 3
      then
        (if 0 < newlines c
         then
           (let c1 = (if 0 < length (content c)
                      then
                        (let useNewlineCount = min (remainder c) (newlines c) in
                         c\<lparr>content := content c @ replicate (nat useNewlineCount) 0x0A,
                           remainder := remainder c - useNewlineCount,
                           newlines := newlines c - useNewlineCount\<rparr>)
                      else c\<lparr>newlines := 0\<rparr>);
                c2 = c1\<lparr>lineHasContent := False, lineHasWhitespace := False\<rparr>
            in if remainder c2 \<le> 0
               then (True, c2\<lparr>offset := offset c2 - int (length char)\<rparr>)
               else emitCharacterForward c2 char charAttributes)
         else emitCharacterForward c char charAttributes)
      else (False, c))"

definition prependCharacter :: "cursor \<Rightarrow> jsstring \<Rightarrow> bool \<times> cursor" where
  "prependCharacter c char =
     (let c1 = c\<lparr>content := char @ content c, remainder := remainder c - 1\<rparr>
      in (remainder c1 \<le> 0, c1))"

definition emitCharacterBackward :: "cursor \<Rightarrow> jsstring \<Rightarrow> nat \<Rightarrow> bool \<times> cursor" where
  "emitCharacterBackward c char charAttributes =
     (let c1 = c\<lparr>lineHasContent := (charAttributes = 2)\<rparr> in
      if lineHasWhitespace c1
      then
        (if lineHasContent c1
         then
           (let c2 = c1\<lparr>content := 0x20 # content c1, lineHasWhitespace := False,
                         remainder := remainder c1 - 1\<rparr>
            in if remainder c2 \<le> 0
               then (True, c2\<lparr>offset := offset c2 + int (length char)\<rparr>)
               else prependCharacter c2 char)
         else prependCharacter (c1\<lparr>lineHasWhitespace := False\<rparr>) char)
      else prependCharacter c1 char)"

definition checkCharacterBackward :: "cursor \<Rightarrow> jsstring \<Rightarrow> nat \<Rightarrow> bool \<times> cursor" where
  "checkCharacterBackward c char charAttributes =
     (if charAttributes = 1 then (False, c\<lparr>lineHasWhitespace := True\<rparr>)
      else if charAttributes = 2 \<or> charAttributes = 3
      then
        (if 0 < newlines c
         then
           (let c1 = (if 0 < length (content c)
                      then
                        (let useNewlineCount = min (remainder c) (newlines c) in
                         c\<lparr>content := replicate (nat useNewlineCount) 0x0A @ content c,
                           remainder := remainder c - useNewlineCount,
                           newlines := newlines c - useNewlineCount\<rparr>)
                      else c\<lparr>newlines := 0\<rparr>);
                c2 = c1\<lparr>lineHasContent := False, lineHasWhitespace := False\<rparr>
            in if remainder c2 \<le> 0
               then (True, c2\<lparr>offset := offset c2 + int (length char)\<rparr>)
               else emitCharacterBackward c2 char charAttributes)
         else emitCharacterBackward c char charAttributes)
      else (False, c))"

text \<open>
  The loops of \<open>_seekTextNodeForward\<close> and \<open>_seekTextNodeBackward\<close>. Every round either
  moves the offset towards the end it runs to, or emits and so lowers a positive
  remainder, or stops.
\<close>

lemma getCharacterAttributes_not_significant:
  "getCharacterAttributes char pn pw \<noteq> 2 \<Longrightarrow> getCharacterAttributes char pn pw \<noteq> 3 \<Longrightarrow>
   char \<noteq> []"
  by (auto simp: getCharacterAttributes_def)

lemma appendCharacter_continue:
  "appendCharacter c char = (False, c2) \<Longrightarrow>
   offset c2 = offset c \<and> 0 < remainder c2 \<and> remainder c2 < remainder c"
  by (auto simp: appendCharacter_def Let_def)

lemma emitCharacterForward_continue:
  "emitCharacterForward c char a = (False, c2) \<Longrightarrow>
   offset c2 = offset c \<and> 0 < remainder c2 \<and> remainder c2 < remainder c"
  by (auto simp: emitCharacterForward_def Let_def split: if_splits
      dest!: appendCharacter_continue)

lemma checkCharacterForward_continue:
  "checkCharacterForward c char a = (False, c2) \<Longrightarrow>
   offset c2 = offset c \<and>
   (if a = 2 \<or> a = 3 then 0 < remainder c2 \<and> remainder c2 < remainder c
    else remainder c2 = remainder c)"
  by (auto simp: checkCharacterForward_def Let_def split: if_splits
      dest!: emitCharacterForward_continue)

lemma prependCharacter_continue:
  "prependCharacter c char = (False, c2) \<Longrightarrow>
   offset c2 = offset c \<and> 0 < remainder c2 \<and> remainder c2 < remainder c"
  by (auto simp: prependCharacter_def Let_def)

lemma emitCharacterBackward_continue:
  "emitCharacterBackward c char a = (False, c2) \<Longrightarrow>
   offset c2 = offset c \<and> 0 < remainder c2 \<and> remainder c2 < remainder c"
  by (auto simp: emitCharacterBackward_def Let_def split: if_splits
      dest!: prependCharacter_continue)

lemma checkCharacterBackward_continue:
  "checkCharacterBackward c char a = (False, c2) \<Longrightarrow>
   offset c2 = offset c \<and>
   (if a = 2 \<or> a = 3 then 0 < remainder c2 \<and> remainder c2 < remainder c
    else remainder c2 = remainder c)"
  by (auto simp: checkCharacterBackward_def Let_def split: if_splits
      dest!: emitCharacterBackward_continue)

function seekTextNodeForward_loop :: "jsstring \<Rightarrow> bool \<Rightarrow> bool \<Rightarrow> cursor \<Rightarrow> cursor" where
  "seekTextNodeForward_loop textValue preserveNewlines preserveWhitespace c =
     (if offset c < int (length textValue)
      then
        (let char = readCodePointsForward textValue (offset c) 1;
             c1 = c\<lparr>offset := offset c + int (length char)\<rparr>;
             charAttributes = getCharacterAttributes char preserveNewlines preserveWhitespace
         in case checkCharacterForward c1 char charAttributes of
              (True, c2) \<Rightarrow> c2
            | (False, c2) \<Rightarrow>
                seekTextNodeForward_loop textValue preserveNewlines preserveWhitespace c2)
      else c)"
  by pat_completeness auto
termination
proof (relation "measure (\<lambda>(textValue, pn, pw, c).
          nat (int (length textValue) - offset c) + nat (remainder c))")
  show "wf (measure (\<lambda>(textValue :: jsstring, pn :: bool, pw :: bool, c).
          nat (int (length textValue) - offset c) + nat (remainder c)))"
    by simp
next
  fix textValue :: jsstring and pn pw :: bool and c c1 c2 :: cursor
    and char :: jsstring and a :: nat and stop :: bool
  assume lt: "offset c < int (length textValue)"
    and char: "char = readCodePointsForward textValue (offset c) 1"
    and c1: "c1 = c\<lparr>offset := offset c + int (length char)\<rparr>"
    and a: "a = getCharacterAttributes char pn pw"
    and r: "(stop, c2) = checkCharacterForward c1 char a" "stop = False"
  from r have "checkCharacterForward c1 char a = (False, c2)" by metis
  from checkCharacterForward_continue [OF this]
  have off: "offset c2 = offset c1"
    and rem: "if a = 2 \<or> a = 3 then 0 < remainder c2 \<and> remainder c2 < remainder c1
              else remainder c2 = remainder c1"
    by simp_all
  show "((textValue, pn, pw, c2), (textValue, pn, pw, c))
      \<in> measure (\<lambda>(textValue, pn, pw, c).
            nat (int (length textValue) - offset c) + nat (remainder c))"
  proof (cases "a = 2 \<or> a = 3")
    case True
    with rem off c1 show ?thesis by auto
  next
    case False
    with a have "char \<noteq> []"
      using getCharacterAttributes_not_significant by blast
    then have "0 < length char" by simp
    with False rem off c1 lt show ?thesis by auto
  qed
qed

function seekTextNodeBackward_loop :: "jsstring \<Rightarrow> bool \<Rightarrow> bool \<Rightarrow> cursor \<Rightarrow> cursor" where
  "seekTextNodeBackward_loop textValue preserveNewlines preserveWhitespace c =
     (if 0 < offset c
      then
        (let char = readCodePointsBackward textValue (offset c - 1) 1;
             c1 = c\<lparr>offset := offset c - int (length char)\<rparr>;
             charAttributes = getCharacterAttributes char preserveNewlines preserveWhitespace
         in case checkCharacterBackward c1 char charAttributes of
              (True, c2) \<Rightarrow> c2
            | (False, c2) \<Rightarrow>
                seekTextNodeBackward_loop textValue preserveNewlines preserveWhitespace c2)
      else c)"
  by pat_completeness auto
termination
proof (relation "measure (\<lambda>(textValue, pn, pw, c). nat (offset c) + nat (remainder c))")
  show "wf (measure (\<lambda>(textValue :: jsstring, pn :: bool, pw :: bool, c).
          nat (offset c) + nat (remainder c)))"
    by simp
next
  fix textValue :: jsstring and pn pw :: bool and c c1 c2 :: cursor
    and char :: jsstring and a :: nat and stop :: bool
  assume lt: "0 < offset c"
    and char: "char = readCodePointsBackward textValue (offset c - 1) 1"
    and c1: "c1 = c\<lparr>offset := offset c - int (length char)\<rparr>"
    and a: "a = getCharacterAttributes char pn pw"
    and r: "(stop, c2) = checkCharacterBackward c1 char a" "stop = False"
  from r have "checkCharacterBackward c1 char a = (False, c2)" by metis
  from checkCharacterBackward_continue [OF this]
  have off: "offset c2 = offset c1"
    and rem: "if a = 2 \<or> a = 3 then 0 < remainder c2 \<and> remainder c2 < remainder c1
              else remainder c2 = remainder c1"
    by simp_all
  show "((textValue, pn, pw, c2), (textValue, pn, pw, c))
      \<in> measure (\<lambda>(textValue, pn, pw, c). nat (offset c) + nat (remainder c))"
  proof (cases "a = 2 \<or> a = 3")
    case True
    with rem off c1 show ?thesis by auto
  next
    case False
    with a have "char \<noteq> []"
      using getCharacterAttributes_not_significant by blast
    then have "0 < length char" by simp
    with False rem off c1 lt show ?thesis by auto
  qed
qed

text \<open>
  \<open>_seekTextNodeForward\<close> and \<open>_seekTextNodeBackward\<close>: the boolean of the source (scanning
  goes on) and the cursor after the call.
\<close>

definition seekTextNodeForward :: "cursor \<Rightarrow> node \<Rightarrow> bool \<Rightarrow> bool \<times> cursor" where
  "seekTextNodeForward c textNode reset =
     (let textValue = nodeValue textNode;
          (preserveNewlines, preserveWhitespace) = getWhitespaceSettings c textNode;
          c1 = (if reset then c\<lparr>offset := 0\<rparr> else c);
          c2 = seekTextNodeForward_loop textValue preserveNewlines preserveWhitespace c1
      in (0 < remainder c2, c2))"

definition seekTextNodeBackward :: "cursor \<Rightarrow> node \<Rightarrow> bool \<Rightarrow> bool \<times> cursor" where
  "seekTextNodeBackward c textNode reset =
     (let textValue = nodeValue textNode;
          nodeValueLength = int (length textValue);
          (preserveNewlines, preserveWhitespace) = getWhitespaceSettings c textNode;
          c1 = (if reset then c\<lparr>offset := nodeValueLength\<rparr> else c);
          c2 = seekTextNodeBackward_loop textValue preserveNewlines preserveWhitespace c1
      in (0 < remainder c2, c2))"

text \<open>
  \<open>seek\<close>. \<open>raiseNewlines\<close> is the assignment
  \<open>if (newlines > this._newlines && generateLayoutContent) this._newlines = newlines\<close>,
  and \<open>exitNodes\<close> the loop over \<open>exitedNodes\<close>. The \<open>while\<close> loop of \<open>seek\<close> is
  \<open>seek_loop\<close>, with the local variables \<open>node\<close>, \<open>lastNode\<close> and \<open>resetOffset\<close> as
  parameters; a run of the loop that never ended would be \<open>None\<close>.
\<close>

definition raiseNewlines :: "cursor \<Rightarrow> int \<Rightarrow> cursor" where
  "raiseNewlines c n =
     (if newlines c < n \<and> generateLayoutContent c then c\<lparr>newlines := n\<rparr> else c)"

fun exitNodes :: "cursor \<Rightarrow> node list \<Rightarrow> cursor" where
  "exitNodes c [] = c"
| "exitNodes c (exitedNode # exitedNodes) =
     (if nodeType exitedNode \<noteq> ELEMENT_NODE then exitNodes c exitedNodes
      else exitNodes (raiseNewlines c (snd (getElementSeekInfo exitedNode))) exitedNodes)"

partial_function (option) seek_loop ::
  "bool \<Rightarrow> cursor \<Rightarrow> node option \<Rightarrow> node \<Rightarrow> bool \<Rightarrow> cursor option" where
  "seek_loop forward c nd lastNode reset =
     (case nd of
        None \<Rightarrow> Some (c\<lparr>node := lastNode, resetOffset := reset\<rparr>)
      | Some n \<Rightarrow>
          if nodeType n = TEXT_NODE
          then
            (case (if forward then seekTextNodeForward c n reset
                   else seekTextNodeBackward c n reset) of
               (continue, c1) \<Rightarrow>
                 if \<not> continue then Some (c1\<lparr>node := n, resetOffset := reset\<rparr>)
                 else
                   (case getNextNode n forward False [] of
                      (next, exitedNodes) \<Rightarrow>
                        seek_loop forward (exitNodes c1 exitedNodes) next n True))
          else if nodeType n = ELEMENT_NODE
          then
            (case getElementSeekInfo n of
               (enterable, nl) \<Rightarrow>
                 (case getNextNode n forward enterable [] of
                    (next, exitedNodes) \<Rightarrow>
                      seek_loop forward
                        (exitNodes (raiseNewlines (c\<lparr>offset := 0\<rparr>) nl) exitedNodes)
                        next n True))
          else
            (case getNextNode n forward False [] of
               (next, exitedNodes) \<Rightarrow>
                 seek_loop forward (exitNodes c exitedNodes) next lastNode True))"

definition seek :: "cursor \<Rightarrow> int \<Rightarrow> cursor option" where
  "seek c len =
     (let forward = (0 \<le> len);
          c1 = c\<lparr>remainder := (if forward then len else - len)\<rparr>
      in if len = 0 then Some c1
         else seek_loop forward c1 (Some (node c1)) (node c1) (resetOffset c1))"

declare seek_loop.simps [code]

declare getNextNode_climb.simps [simp del]
declare getParentElement.simps [simp del]
declare seekTextNodeForward_loop.simps [simp del]
declare seekTextNodeBackward_loop.simps [simp del]
declare readCodePointsForward.simps [simp del]
declare readCodePointsBackward.simps [simp del]


section \<open>Documents and notions used to state the properties\<close>

text \<open>The node of a document reached from its root along child indices.\<close>

definition nodeAt :: "dom \<Rightarrow> nat list \<Rightarrow> node" where
  "nodeAt t path = (case descend (document t) path of None \<Rightarrow> document t | Some n \<Rightarrow> n)"

text \<open>A visible inline style with default white space handling, and its block variant.\<close>

definition inlineStyle :: css_style where
  "inlineStyle = \<lparr> display = ''inline'', position = ''static'', visibility = ''visible'',
     opacity = Some 1, fontSize = Some 16, color = Some ''rgb(0, 0, 0)'',
     webkitTextFillColor = Some ''rgb(0, 0, 0)'', whiteSpace = ''normal'',
     userSelect = Some ''auto'', webkitUserSelect = Some ''auto'', MozUserSelect = None,
     msUserSelect = None \<rparr>"

definition blockStyle :: css_style where
  "blockStyle = inlineStyle\<lparr>display := ''block''\<rparr>"

text \<open>The document that is the single text \<open>a   b\<close>, with three interior spaces.\<close>

definition spacedText :: dom where
  "spacedText = Node (TextLabel (utf16 ''a   b'')) []"

text \<open>Two sibling block containers holding \<open>foo\<close> and \<open>bar\<close>.\<close>

definition twoBlocks :: dom where
  "twoBlocks = Node (ElementLabel ''BODY'' blockStyle)
     [Node (ElementLabel ''DIV'' blockStyle) [Node (TextLabel (utf16 ''foo'')) []],
      Node (ElementLabel ''DIV'' blockStyle) [Node (TextLabel (utf16 ''bar'')) []]]"

text \<open>A lone element with a given display value, otherwise styled as \<open>inlineStyle\<close>.\<close>

definition displayed :: "string \<Rightarrow> node" where
  "displayed d = document (Node (ElementLabel ''SPAN'' (inlineStyle\<lparr>display := d\<rparr>)) [])"

text \<open>
  The outer display type of a \<open>display\<close> value is what stands before the first space;
  its keyword is what stands before the first hyphen of that. A value breaks the layout
  flow when the keyword is block, flex, grid, list or table, or when it is ruby and a
  hyphenated part follows (ruby-base, ruby-text, ...).
\<close>

definition displayOutside :: "string \<Rightarrow> string" where
  "displayOutside d = takeWhile (\<lambda>x. x \<noteq> CHR '' '') d"

definition displayKeyword :: "string \<Rightarrow> string" where
  "displayKeyword d = takeWhile (\<lambda>x. x \<noteq> CHR ''-'') (displayOutside d)"

definition breaksLayoutFlow :: "string \<Rightarrow> bool" where
  "breaksLayoutFlow d =
     (displayKeyword d \<in> {''block'', ''flex'', ''grid'', ''list'', ''table''} \<or>
      (displayKeyword d = ''ruby'' \<and> CHR ''-'' \<in> set (displayOutside d)))"

text \<open>
  The number of nodes of a tree, and the number of nodes of a document that a scan has
  not passed yet: the subtree of the node it stands at, and the subtrees of the siblings
  ahead of the node and of each of its ancestors (to the right when scanning forward, to
  the left when scanning backward).
\<close>

fun size_dom :: "dom \<Rightarrow> nat" where
  "size_dom (Node l cs) = Suc (sum_list (map size_dom cs))"

definition size_doms :: "dom list \<Rightarrow> nat" where
  "size_doms ts = sum_list (map size_dom ts)"

fun ahead_crumb :: "bool \<Rightarrow> crumb \<Rightarrow> nat" where
  "ahead_crumb forward (Crumb ls l rs) = size_doms (if forward then rs else ls)"

definition ahead_ctx :: "bool \<Rightarrow> crumb list \<Rightarrow> nat" where
  "ahead_ctx forward ctx = sum_list (map (ahead_crumb forward) ctx)"

definition remaining :: "bool \<Rightarrow> node \<Rightarrow> nat" where
  "remaining forward n = size_dom (fst n) + ahead_ctx forward (snd n)"

text \<open>
  Every step of \<open>getNextNode\<close> leads to a node with strictly fewer nodes still ahead.
\<close>

lemma size_doms_simps [simp]:
  "size_doms [] = 0" "size_doms (t # ts) = size_dom t + size_doms ts"
  "size_doms (ts @ us) = size_doms ts + size_doms us"
  "size_doms (rev ts) = size_doms ts"
  by (simp_all add: size_doms_def rev_map [symmetric])

lemma size_dom_Node [simp]: "size_dom (Node l cs) = Suc (size_doms cs)"
  by (simp add: size_doms_def)

declare size_dom.simps [simp del]

lemma size_dom_pos [simp]: "0 < size_dom t"
  by (cases t) simp

lemma ahead_ctx_simps [simp]:
  "ahead_ctx forward [] = 0"
  "ahead_ctx forward (cr # ctx) = ahead_crumb forward cr + ahead_ctx forward ctx"
  by (simp_all add: ahead_ctx_def)

lemma firstChild_remaining:
  "firstChild n = Some n' \<Longrightarrow> remaining True n' < remaining True n"
  by (cases n rule: firstChild.cases) (auto simp: remaining_def)

lemma lastChild_remaining:
  assumes "lastChild n = Some n'"
  shows "remaining False n' < remaining False n"
proof -
  obtain l cs ctx where n: "n = (Node l cs, ctx)"
    by (cases n rule: lastChild.cases) auto
  with assms have ne: "cs \<noteq> []" and n': "n' = (last cs, Crumb (rev (butlast cs)) l [] # ctx)"
    by (auto split: if_splits)
  from ne have "size_doms cs = size_doms (butlast cs) + size_dom (last cs)"
    by (metis append_butlast_last_id size_doms_simps(1,2,3) add.right_neutral)
  then show ?thesis
    using n n' by (simp add: remaining_def)
qed

lemma getNextNode_climb_remaining:
  "getNextNode_climb n forward ex = (Some n', ex') \<Longrightarrow>
   remaining forward n' \<le> ahead_ctx forward (snd n)"
proof (induction n forward ex rule: getNextNode_climb.induct)
  case (1 n forward ex)
  obtain t ctx where n: "n = (t, ctx)" by (cases n)
  show ?case
  proof (cases "if forward then nextSibling n else previousSibling n")
    case (Some s)
    with "1.prems" have s: "n' = s"
      by (subst (asm) getNextNode_climb.simps) (simp add: Let_def)
    show ?thesis
    proof (cases forward)
      case True
      with Some n have "nextSibling (t, ctx) = Some s" by simp
      then show ?thesis using True s n
        by (cases "(t, ctx)" rule: nextSibling.cases) (auto simp: remaining_def)
    next
      case False
      with Some n have "previousSibling (t, ctx) = Some s" by simp
      then show ?thesis using False s n
        by (cases "(t, ctx)" rule: previousSibling.cases) (auto simp: remaining_def)
    qed
  next
    case None
    show ?thesis
    proof (cases "parentNode n")
      case pNone: None
      with None "1.prems" show ?thesis
        by (subst (asm) getNextNode_climb.simps) (simp add: Let_def)
    next
      case (Some p)
      with None "1.prems" have "getNextNode_climb p forward (ex @ [n]) = (Some n', ex')"
        by (subst (asm) getNextNode_climb.simps) (simp add: Let_def)
      from "1.IH" [OF refl None Some this]
      have "remaining forward n' \<le> ahead_ctx forward (snd p)" .
      moreover have "ahead_ctx forward (snd p) \<le> ahead_ctx forward (snd n)"
        using Some n by (cases "(t, ctx)" rule: parentNode.cases) auto
      ultimately show ?thesis by simp
    qed
  qed
qed

lemma getNextNode_remaining:
  assumes "getNextNode n forward visitChildren ex = (Some n', ex')"
  shows "remaining forward n' < remaining forward n"
proof (cases "if visitChildren then (if forward then firstChild n else lastChild n) else None")
  case (Some c)
  with assms have n': "n' = c" by (simp add: getNextNode_def)
  from Some have "visitChildren" by (simp split: if_splits)
  with Some n' show ?thesis
    by (cases forward) (auto dest: firstChild_remaining lastChild_remaining)
next
  case None
  with assms have "getNextNode_climb n forward ex = (Some n', ex')"
    by (simp add: getNextNode_def)
  from getNextNode_climb_remaining [OF this]
  have "remaining forward n' \<le> ahead_ctx forward (snd n)" .
  moreover have "0 < size_dom (fst n)" by simp
  ultimately show ?thesis unfolding remaining_def [of forward n] by linarith
qed

text \<open>
  The nodes that the loop of \<open>seek\<close> visits from a node when the length is never
  reached, in the order of the visits: each node is followed by what \<open>getNextNode\<close>
  returns for it, entered when it is an enterable element. \<open>lastVisited\<close> is the last
  text or element node among them, and the starting node when there is none.
\<close>

function traversal :: "bool \<Rightarrow> node \<Rightarrow> node list" where
  "traversal forward n =
     n # (case fst (getNextNode n forward
                     (nodeType n = ELEMENT_NODE \<and> fst (getElementSeekInfo n)) []) of
            None \<Rightarrow> []
          | Some n' \<Rightarrow> traversal forward n')"
  by pat_completeness auto
termination
proof (relation "measure (\<lambda>(forward, n). remaining forward n)")
  show "wf (measure (\<lambda>(forward, n). remaining forward n))" by simp
next
  fix forward :: bool and n n' :: node
  assume "fst (getNextNode n forward
      (nodeType n = ELEMENT_NODE \<and> fst (getElementSeekInfo n)) []) = Some n'"
  then obtain ex where "getNextNode n forward
      (nodeType n = ELEMENT_NODE \<and> fst (getElementSeekInfo n)) [] = (Some n', ex)"
    by (cases "getNextNode n forward
      (nodeType n = ELEMENT_NODE \<and> fst (getElementSeekInfo n)) []") auto
  from getNextNode_remaining [OF this]
  show "((forward, n'), (forward, n)) \<in> measure (\<lambda>(forward, n). remaining forward n)"
    by simp
qed

declare traversal.simps [simp del]

definition lastVisited :: "node \<Rightarrow> node list \<Rightarrow> node" where
  "lastVisited start ns = last (start # filter (\<lambda>n. nodeType n \<noteq> OTHER_NODE) ns)"

text \<open>
  One round of the loop of \<open>_seekTextNodeForward\<close> (\<open>_seekTextNodeBackward\<close>): the
  character is read, the offset moved and the character checked.
\<close>

definition forwardRound :: "jsstring \<Rightarrow> bool \<Rightarrow> bool \<Rightarrow> cursor \<Rightarrow> bool \<times> cursor" where
  "forwardRound v pn pw c =
     (let char = readCodePointsForward v (offset c) 1
      in checkCharacterForward (c\<lparr>offset := offset c + int (length char)\<rparr>) char
           (getCharacterAttributes char pn pw))"

definition backwardRound :: "jsstring \<Rightarrow> bool \<Rightarrow> bool \<Rightarrow> cursor \<Rightarrow> bool \<times> cursor" where
  "backwardRound v pn pw c =
     (let char = readCodePointsBackward v (offset c - 1) 1
      in checkCharacterBackward (c\<lparr>offset := offset c - int (length char)\<rparr>) char
           (getCharacterAttributes char pn pw))"

text \<open>A text inside a script element.\<close>

definition scriptText :: dom where
  "scriptText = Node (ElementLabel ''BODY'' blockStyle)
     [Node (ElementLabel ''SCRIPT'' (inlineStyle\<lparr>display := ''none''\<rparr>))
        [Node (TextLabel (utf16 ''abc'')) []]]"

text \<open>
  An ordinary character: one that is neither collapsible white space nor a line feed nor
  ignored, so that its class is significant under every white space setting.
\<close>

definition ordinary :: "16 word \<Rightarrow> bool" where
  "ordinary u = (u \<notin> {0x09, 0x0C, 0x0D, 0x20, 0x0A, 0x200B, 0x200C})"

text \<open>
  The number of Unicode code points of a string: a high surrogate followed by a low
  surrogate is one code point, every other code unit is one. An index is a code point
  boundary when it does not split such a pair.
\<close>

fun codePoints :: "jsstring \<Rightarrow> nat" where
  "codePoints [] = 0"
| "codePoints [u] = 1"
| "codePoints (u # v # r) =
     (if isHighSurrogate u \<and> isLowSurrogate v then Suc (codePoints r)
      else Suc (codePoints (v # r)))"

definition codePointBoundary :: "jsstring \<Rightarrow> nat \<Rightarrow> bool" where
  "codePointBoundary v i =
     (\<not> (0 < i \<and> i < length v \<and> isHighSurrogate (v ! (i - 1)) \<and> isLowSurrogate (v ! i)))"

text \<open>The index reached from an index after reading a number of code points forward.\<close>

fun skipForward :: "jsstring \<Rightarrow> nat \<Rightarrow> nat \<Rightarrow> nat" where
  "skipForward v i 0 = i"
| "skipForward v i (Suc k) =
     skipForward v (i + length (readCodePointsForward v (int i) (Suc 0))) k"

text \<open>A cursor with no newline pending and no white space pending on its line.\<close>

definition clean :: "cursor \<Rightarrow> bool" where
  "clean c = (newlines c = 0 \<and> \<not> lineHasWhitespace c)"

text \<open>The document that is the single text \<open>ab\<close>.\<close>

definition shortText :: dom where
  "shortText = Node (TextLabel (utf16 ''ab'')) []"

text \<open>
  The elements that are skipped whole: head, rt, script and style. Two trees are the same
  outside skipped elements when they differ at most in what such elements contain; two
  nodes are, when this holds of their subtrees and of the siblings of the node and of its
  ancestors, label for label. So the two documents agree but for the inside of skipped
  elements that do not contain the node.
\<close>

definition skippedLabel :: "label \<Rightarrow> bool" where
  "skippedLabel l =
     (case l of
        TextLabel v \<Rightarrow> False
      | ElementLabel name st \<Rightarrow>
          toUpperCase name = ''HEAD'' \<or> toUpperCase name = ''RT''
          \<or> toUpperCase name = ''SCRIPT'' \<or> toUpperCase name = ''STYLE''
      | OtherLabel name \<Rightarrow> False)"

fun sameOutsideSkipped :: "dom \<Rightarrow> dom \<Rightarrow> bool" where
  "sameOutsideSkipped (Node l cs) (Node l' cs') =
     (l = l' \<and> (skippedLabel l \<or> list_all2 sameOutsideSkipped cs cs'))"

fun sameCrumb :: "crumb \<Rightarrow> crumb \<Rightarrow> bool" where
  "sameCrumb (Crumb ls l rs) (Crumb ls' l' rs') =
     (l = l' \<and> list_all2 sameOutsideSkipped ls ls' \<and> list_all2 sameOutsideSkipped rs rs')"

definition sameNode :: "node \<Rightarrow> node \<Rightarrow> bool" where
  "sameNode n n' = (sameOutsideSkipped (fst n) (fst n') \<and> list_all2 sameCrumb (snd n) (snd n'))"

text \<open>Two cursors that agree in every field but \<open>node\<close>.\<close>

definition sameButNode :: "cursor \<Rightarrow> cursor \<Rightarrow> bool" where
  "sameButNode c1 c2 =
     (offset c1 = offset c2 \<and> content c1 = content c2 \<and> remainder c1 = remainder c2
      \<and> resetOffset c1 = resetOffset c2 \<and> newlines c1 = newlines c2
      \<and> lineHasWhitespace c1 = lineHasWhitespace c2 \<and> lineHasContent c1 = lineHasContent c2
      \<and> forcePreserveWhitespace c1 = forcePreserveWhitespace c2
      \<and> generateLayoutContent c1 = generateLayoutContent c2)"

definition sameResult :: "cursor \<Rightarrow> cursor \<Rightarrow> bool" where
  "sameResult c1 c2 = (sameButNode c1 c2 \<and> sameNode (node c1) (node c2))"

text \<open>Two documents that differ inside a script element only.\<close>

definition scriptedA :: dom where
  "scriptedA = Node (ElementLabel ''BODY'' blockStyle)
     [Node (ElementLabel ''SCRIPT'' (inlineStyle\<lparr>display := ''none''\<rparr>))
        [Node (TextLabel (utf16 ''abc'')) []],
      Node (ElementLabel ''DIV'' blockStyle) [Node (TextLabel (utf16 ''foo'')) []]]"

definition scriptedB :: dom where
  "scriptedB = Node (ElementLabel ''BODY'' blockStyle)
     [Node (ElementLabel ''SCRIPT'' (inlineStyle\<lparr>display := ''none''\<rparr>))
        [Node (TextLabel (utf16 ''xyz'')) [], Node (TextLabel (utf16 ''more'')) []],
      Node (ElementLabel ''DIV'' blockStyle) [Node (TextLabel (utf16 ''foo'')) []]]"

text \<open>
  The offset of a cursor is valid when it lies within the text of the node, is about to be
  reset, or is not used because the node is no text node.
\<close>

definition validOffset :: "cursor \<Rightarrow> bool" where
  "validOffset c =
     (resetOffset c \<or> nodeType (node c) \<noteq> TEXT_NODE
      \<or> (0 \<le> offset c \<and> offset c \<le> int (length (nodeValue (node c)))))"

text \<open>
  \<open>flushForward\<close> and \<open>flushBackward\<close> are the statements of \<open>_checkCharacter...\<close> under
  \<open>if (this._newlines > 0)\<close>, before the test of the remainder.
\<close>

definition flushForward :: "cursor \<Rightarrow> cursor" where
  "flushForward c =
     (if 0 < length (content c)
      then c\<lparr>content := content c @ replicate (nat (min (remainder c) (newlines c))) 0x0A,
             remainder := remainder c - min (remainder c) (newlines c),
             newlines := newlines c - min (remainder c) (newlines c)\<rparr>
      else c\<lparr>newlines := 0\<rparr>)\<lparr>lineHasContent := False, lineHasWhitespace := False\<rparr>"

definition flushBackward :: "cursor \<Rightarrow> cursor" where
  "flushBackward c =
     (if 0 < length (content c)
      then c\<lparr>content := replicate (nat (min (remainder c) (newlines c))) 0x0A @ content c,
             remainder := remainder c - min (remainder c) (newlines c),
             newlines := newlines c - min (remainder c) (newlines c)\<rparr>
      else c\<lparr>newlines := 0\<rparr>)\<lparr>lineHasContent := False, lineHasWhitespace := False\<rparr>"

text \<open>
  The characters of a text in the order a scan reads them: from the front, one code unit
  each, except that a high surrogate followed by a low surrogate is one character; from
  the end, one code unit each, except that a low surrogate preceded by a high surrogate
  is one character. \<open>oneCharacter\<close> holds of a string that is one code unit or one
  surrogate pair.
\<close>

fun characters :: "jsstring \<Rightarrow> jsstring list" where
  "characters [] = []"
| "characters [u] = [[u]]"
| "characters (u # v # us) =
     (if isHighSurrogate u \<and> isLowSurrogate v then [u, v] # characters us
      else [u] # characters (v # us))"

fun charactersFromEnd :: "jsstring \<Rightarrow> jsstring list" where
  "charactersFromEnd [] = []"
| "charactersFromEnd [u] = [[u]]"
| "charactersFromEnd (u # v # us) =
     (if isLowSurrogate u \<and> isHighSurrogate v then [v, u] # charactersFromEnd us
      else [u] # charactersFromEnd (v # us))"

definition charactersBackward :: "jsstring \<Rightarrow> jsstring list" where
  "charactersBackward s = charactersFromEnd (rev s)"

definition oneCharacter :: "jsstring \<Rightarrow> bool" where
  "oneCharacter p =
     (length p = 1 \<or> (length p = 2 \<and> isHighSurrogate (p ! 0) \<and> isLowSurrogate (p ! 1)))"

text \<open>
  What a scan adds to the content depends, besides the text, on three things only: the
  number of newlines pending, whether white space is pending on the line, and whether the
  content is still empty. \<open>layoutOf\<close> reads them off a cursor.
\<close>

type_synonym layout = "int \<times> bool \<times> bool"

definition layoutOf :: "cursor \<Rightarrow> layout" where
  "layoutOf c = (newlines c, lineHasWhitespace c, content c \<noteq> [])"

text \<open>
  The characters that one character of a text adds to the content, by its class, and the
  three things after it. An ignored character adds nothing. Collapsible white space adds
  nothing and is pending from then on. A significant character or preserved newline adds
  first the pending newlines, if the content is not empty, or else one space if white
  space is pending and the character is no newline, and then itself; nothing is pending
  after it.
\<close>

fun characterPieces :: "nat \<Rightarrow> jsstring \<Rightarrow> layout \<Rightarrow> jsstring list" where
  "characterPieces a ch (nl, ws, st) =
     (if a = 2 \<or> a = 3
      then (if 0 < nl then (if st then replicate (nat nl) [0x0A] else [])
            else if ws \<and> a = 2 then [[0x20]] else []) @ [ch]
      else [])"

fun afterCharacter :: "nat \<Rightarrow> layout \<Rightarrow> layout" where
  "afterCharacter a (nl, ws, st) =
     (if a = 1 then (nl, True, st)
      else if a = 2 \<or> a = 3 then (if 0 < nl then 0 else nl, False, True)
      else (nl, ws, st))"

text \<open>The same for the characters of a text, one after the other.\<close>

fun textPieces :: "bool \<Rightarrow> bool \<Rightarrow> jsstring list \<Rightarrow> layout \<Rightarrow> jsstring list" where
  "textPieces pn pw [] s = []"
| "textPieces pn pw (ch # chs) s =
     characterPieces (getCharacterAttributes ch pn pw) ch s
     @ textPieces pn pw chs (afterCharacter (getCharacterAttributes ch pn pw) s)"

fun textLayout :: "bool \<Rightarrow> bool \<Rightarrow> jsstring list \<Rightarrow> layout \<Rightarrow> layout" where
  "textLayout pn pw [] s = s"
| "textLayout pn pw (ch # chs) s =
     textLayout pn pw chs (afterCharacter (getCharacterAttributes ch pn pw) s)"

text \<open>
  Newlines become pending when an element is visited or left, if layout content is
  generated: the pending number is raised to the number of the element.
\<close>

fun raiseLayout :: "bool \<Rightarrow> layout \<Rightarrow> int \<Rightarrow> layout" where
  "raiseLayout gl (nl, ws, st) k = (if nl < k \<and> gl then (k, ws, st) else (nl, ws, st))"

fun exitLayout :: "bool \<Rightarrow> layout \<Rightarrow> node list \<Rightarrow> layout" where
  "exitLayout gl s [] = s"
| "exitLayout gl s (e # es) =
     (if nodeType e \<noteq> ELEMENT_NODE then exitLayout gl s es
      else exitLayout gl (raiseLayout gl s (snd (getElementSeekInfo e))) es)"

text \<open>
  The characters that a scan adds to the content when no length limits it, read off the
  document. A text node gives the characters of its text that lie ahead of the offset
  (of the whole text when the offset is reset, \<open>None\<close>), under the white space settings
  of the node; an element or another node gives none. \<open>nodeLayout\<close> is the layout state
  after the node and the nodes left on the way to the next one. \<open>scanNodes\<close> goes through
  the nodes of a traversal; only its first node is read from an offset.
  \<open>visibleCharacters\<close> are the characters ahead of a cursor: those of the traversal of the
  document from its node.
\<close>

definition nodeCharacters :: "bool \<Rightarrow> node \<Rightarrow> int option \<Rightarrow> jsstring list" where
  "nodeCharacters forward n off =
     (if forward
      then characters (drop (case off of None \<Rightarrow> 0 | Some k \<Rightarrow> nat k) (nodeValue n))
      else charactersBackward
             (take (case off of None \<Rightarrow> length (nodeValue n) | Some k \<Rightarrow> nat k) (nodeValue n)))"

definition nodePieces :: "bool \<Rightarrow> cursor \<Rightarrow> node \<Rightarrow> int option \<Rightarrow> layout \<Rightarrow> jsstring list" where
  "nodePieces forward cfg n off s =
     (if nodeType n = TEXT_NODE
      then textPieces (fst (getWhitespaceSettings cfg n)) (snd (getWhitespaceSettings cfg n))
             (nodeCharacters forward n off) s
      else [])"

definition nodeLayout :: "bool \<Rightarrow> cursor \<Rightarrow> node \<Rightarrow> int option \<Rightarrow> layout \<Rightarrow> layout" where
  "nodeLayout forward cfg n off s =
     exitLayout (generateLayoutContent cfg)
       (if nodeType n = TEXT_NODE
        then textLayout (fst (getWhitespaceSettings cfg n)) (snd (getWhitespaceSettings cfg n))
               (nodeCharacters forward n off) s
        else if nodeType n = ELEMENT_NODE
        then raiseLayout (generateLayoutContent cfg) s (snd (getElementSeekInfo n))
        else s)
       (snd (getNextNode n forward
               (nodeType n = ELEMENT_NODE \<and> fst (getElementSeekInfo n)) []))"

fun scanNodes :: "bool \<Rightarrow> cursor \<Rightarrow> node list \<Rightarrow> int option \<Rightarrow> layout \<Rightarrow> jsstring list" where
  "scanNodes forward cfg [] off s = []"
| "scanNodes forward cfg (n # ns) off s =
     nodePieces forward cfg n off s
     @ scanNodes forward cfg ns None (nodeLayout forward cfg n off s)"

definition visibleCharacters :: "bool \<Rightarrow> cursor \<Rightarrow> jsstring list" where
  "visibleCharacters forward c =
     scanNodes forward c (traversal forward (node c))
       (if resetOffset c then None else Some (offset c)) (layoutOf c)"

text \<open>
  Notions of the proofs. \<open>took\<close>: the second cursor has added to the content of the first
  as many of the given characters as the remainder of the first allows, in their order,
  and its remainder is lower by their number. \<open>sameSettings\<close>: two cursors agree on the
  two flags of the constructor.
\<close>

definition took :: "bool \<Rightarrow> cursor \<Rightarrow> jsstring list \<Rightarrow> cursor \<Rightarrow> bool" where
  "took forward c ps c2 =
     (content c2 = (if forward then content c @ concat (take (nat (remainder c)) ps)
                    else concat (rev (take (nat (remainder c)) ps)) @ content c)
      \<and> remainder c2 = remainder c - int (length (take (nat (remainder c)) ps)))"

definition sameSettings :: "cursor \<Rightarrow> cursor \<Rightarrow> bool" where
  "sameSettings c c2 =
     (forcePreserveWhitespace c2 = forcePreserveWhitespace c
      \<and> generateLayoutContent c2 = generateLayoutContent c)"

text \<open>A text with interior white space inside a text area.\<close>

definition formText :: dom where
  "formText = Node (ElementLabel ''BODY'' blockStyle)
     [Node (ElementLabel ''TEXTAREA'' inlineStyle)
        [Node (TextLabel (utf16 ''a  b'')) []]]"


section \<open>Properties\<close>

subsection \<open>Display values\<close>

lemma indexOf_nonneg_iff: "0 \<le> indexOf s ch \<longleftrightarrow> ch \<in> set s"
  by (induction s) (auto simp: Let_def)

lemma substring0_indexOf:
  "ch \<in> set s \<Longrightarrow> substring0 s (indexOf s ch) = takeWhile (\<lambda>x. x \<noteq> ch) s"
proof (induction s)
  case Nil
  then show ?case by simp
next
  case (Cons x xs)
  show ?case
  proof (cases "x = ch")
    case True
    then show ?thesis by (simp add: substring0_def)
  next
    case False
    with Cons.prems have in_xs: "ch \<in> set xs" by simp
    then have nonneg: "0 \<le> indexOf xs ch" by (simp add: indexOf_nonneg_iff)
    have "substring0 (x # xs) (indexOf (x # xs) ch) = x # substring0 xs (indexOf xs ch)"
      using False nonneg by (simp add: substring0_def Let_def nat_add_distrib)
    with Cons.IH [OF in_xs] False show ?thesis by simp
  qed
qed

lemma truncate_at:
  "(if 0 \<le> indexOf s ch then substring0 s (indexOf s ch) else s) = takeWhile (\<lambda>x. x \<noteq> ch) s"
proof (cases "ch \<in> set s")
  case True
  then show ?thesis
    by (simp add: indexOf_nonneg_iff substring0_indexOf)
next
  case False
  then have "\<forall>x\<in>set s. x \<noteq> ch" by auto
  then have tw: "takeWhile (\<lambda>x. x \<noteq> ch) s = s" by (simp only: takeWhile_eq_all_conv)
  show ?thesis unfolding tw using False by (simp add: indexOf_nonneg_iff)
qed

lemma doesCSSDisplayChangeLayout_eq: "doesCSSDisplayChangeLayout d = breaksLayoutFlow d"
proof -
  have d1: "(if 0 \<le> indexOf d CHR '' '' then substring0 d (indexOf d CHR '' '') else d)
      = displayOutside d"
    by (simp only: truncate_at displayOutside_def)
  have d2: "(if 0 \<le> indexOf (displayOutside d) CHR ''-''
             then substring0 (displayOutside d) (indexOf (displayOutside d) CHR ''-'')
             else displayOutside d) = displayKeyword d"
    by (simp only: truncate_at displayKeyword_def)
  have "doesCSSDisplayChangeLayout d =
     (if displayKeyword d = ''block'' \<or> displayKeyword d = ''flex'' \<or> displayKeyword d = ''grid''
          \<or> displayKeyword d = ''list'' \<or> displayKeyword d = ''table''
      then True
      else if displayKeyword d = ''ruby'' then 0 \<le> indexOf (displayOutside d) CHR ''-''
      else False)"
    unfolding doesCSSDisplayChangeLayout_def Let_def d1 d2 ..
  also have "\<dots> = breaksLayoutFlow d"
    unfolding breaksLayoutFlow_def indexOf_nonneg_iff by auto
  finally show ?thesis .
qed


subsection \<open>Progress of the traversal\<close>

lemma seek_loop_returns:
  "\<exists>c'. seek_loop forward c nd lastNode reset = Some c'"
proof (induction "case nd of None \<Rightarrow> 0 | Some n \<Rightarrow> Suc (remaining forward n)"
    arbitrary: c nd lastNode reset rule: less_induct)
  case less
  show ?case
  proof (cases nd)
    case None
    then show ?thesis by (simp add: seek_loop.simps)
  next
    case (Some n)
    have step: "\<exists>c'. seek_loop forward c2 next l True = Some c'"
      if "getNextNode n forward vis [] = (next, ex)" for c2 "next" l vis ex
    proof (rule less.hyps)
      show "(case next of None \<Rightarrow> 0 | Some n \<Rightarrow> Suc (remaining forward n))
          < (case nd of None \<Rightarrow> 0 | Some n \<Rightarrow> Suc (remaining forward n))"
        using that Some by (cases "next") (auto dest: getNextNode_remaining)
    qed
    obtain cont c1 where r: "(if forward then seekTextNodeForward c n reset
        else seekTextNodeBackward c n reset) = (cont, c1)"
      by fastforce
    obtain enterable nl where i: "getElementSeekInfo n = (enterable, nl)"
      by fastforce
    obtain next1 ex1 where g1: "getNextNode n forward False [] = (next1, ex1)"
      by fastforce
    obtain next2 ex2 where g2: "getNextNode n forward enterable [] = (next2, ex2)"
      by fastforce
    show ?thesis
      unfolding Some
      by (subst seek_loop.simps) (simp add: r i g1 g2 step [OF g1] step [OF g2])
  qed
qed


subsection \<open>The loops\<close>

lemma seek_loop_induct [case_names Done Visit]:
  assumes base: "\<And>c lastNode reset. P c None lastNode reset"
    and step: "\<And>c n lastNode reset.
      (\<And>c2 next l visitChildren ex.
          getNextNode n forward visitChildren [] = (next, ex) \<Longrightarrow> P c2 next l True) \<Longrightarrow>
      P c (Some n) lastNode reset"
  shows "P c nd lastNode reset"
proof (induction "case nd of None \<Rightarrow> 0 | Some n \<Rightarrow> Suc (remaining forward n)"
    arbitrary: c nd lastNode reset rule: less_induct)
  case less
  show ?case
  proof (cases nd)
    case None
    then show ?thesis by (simp add: base)
  next
    case (Some n)
    have "P c2 next l True"
      if "getNextNode n forward vis [] = (next, ex)" for c2 "next" l vis ex
    proof (rule less.hyps)
      show "(case next of None \<Rightarrow> 0 | Some n \<Rightarrow> Suc (remaining forward n))
          < (case nd of None \<Rightarrow> 0 | Some n \<Rightarrow> Suc (remaining forward n))"
        using that Some by (cases "next") (auto dest: getNextNode_remaining)
    qed
    then show ?thesis unfolding Some by (rule step)
  qed
qed

text \<open>What one round of the loop does, as equations.\<close>

lemma seek_loop_None:
  "seek_loop forward c None lastNode reset = Some (c\<lparr>node := lastNode, resetOffset := reset\<rparr>)"
  by (subst seek_loop.simps) simp

lemma seek_loop_text:
  assumes "nodeType n = TEXT_NODE"
    and "(if forward then seekTextNodeForward c n reset else seekTextNodeBackward c n reset)
          = (continue, c1)"
    and "getNextNode n forward False [] = (next, ex)"
  shows "seek_loop forward c (Some n) lastNode reset =
     (if \<not> continue then Some (c1\<lparr>node := n, resetOffset := reset\<rparr>)
      else seek_loop forward (exitNodes c1 ex) next n True)"
  using assms by (subst seek_loop.simps) simp

lemma seek_loop_element:
  assumes "nodeType n = ELEMENT_NODE"
    and "getElementSeekInfo n = (enterable, nl)"
    and "getNextNode n forward enterable [] = (next, ex)"
  shows "seek_loop forward c (Some n) lastNode reset =
     seek_loop forward (exitNodes (raiseNewlines (c\<lparr>offset := 0\<rparr>) nl) ex) next n True"
  using assms by (subst seek_loop.simps) simp

lemma seek_loop_other:
  assumes "nodeType n = OTHER_NODE"
    and "getNextNode n forward False [] = (next, ex)"
  shows "seek_loop forward c (Some n) lastNode reset =
     seek_loop forward (exitNodes c ex) next lastNode True"
  using assms by (subst seek_loop.simps) simp

text \<open>Fields that the bookkeeping of newlines leaves alone.\<close>

lemma raiseNewlines_fields [simp]:
  "content (raiseNewlines c k) = content c"
  "remainder (raiseNewlines c k) = remainder c"
  "offset (raiseNewlines c k) = offset c"
  "lineHasWhitespace (raiseNewlines c k) = lineHasWhitespace c"
  "lineHasContent (raiseNewlines c k) = lineHasContent c"
  "forcePreserveWhitespace (raiseNewlines c k) = forcePreserveWhitespace c"
  "generateLayoutContent (raiseNewlines c k) = generateLayoutContent c"
  by (simp_all add: raiseNewlines_def)

lemma exitNodes_fields [simp]:
  "content (exitNodes c ex) = content c"
  "remainder (exitNodes c ex) = remainder c"
  "offset (exitNodes c ex) = offset c"
  "lineHasWhitespace (exitNodes c ex) = lineHasWhitespace c"
  "lineHasContent (exitNodes c ex) = lineHasContent c"
  "forcePreserveWhitespace (exitNodes c ex) = forcePreserveWhitespace c"
  "generateLayoutContent (exitNodes c ex) = generateLayoutContent c"
  by (induction c ex rule: exitNodes.induct; simp)+

lemma seekTextNodeForward_loop_unfold:
  "seekTextNodeForward_loop v pn pw c =
     (if offset c < int (length v)
      then (if fst (forwardRound v pn pw c) then snd (forwardRound v pn pw c)
            else seekTextNodeForward_loop v pn pw (snd (forwardRound v pn pw c)))
      else c)"
  by (subst seekTextNodeForward_loop.simps)
     (simp add: forwardRound_def Let_def split: prod.splits bool.splits)

lemma seekTextNodeBackward_loop_unfold:
  "seekTextNodeBackward_loop v pn pw c =
     (if 0 < offset c
      then (if fst (backwardRound v pn pw c) then snd (backwardRound v pn pw c)
            else seekTextNodeBackward_loop v pn pw (snd (backwardRound v pn pw c)))
      else c)"
  by (subst seekTextNodeBackward_loop.simps)
     (simp add: backwardRound_def Let_def split: prod.splits bool.splits)

lemma seekTextNodeForward_loop_induct [case_names Round]:
  assumes "\<And>v pn pw c.
      (offset c < int (length v) \<Longrightarrow> \<not> fst (forwardRound v pn pw c) \<Longrightarrow>
         P v pn pw (snd (forwardRound v pn pw c))) \<Longrightarrow> P v pn pw c"
  shows "P v pn pw c"
proof (induction v pn pw c rule: seekTextNodeForward_loop.induct)
  case (1 v pn pw c)
  show ?case
  proof (rule assms)
    assume lt: "offset c < int (length v)" and nf: "\<not> fst (forwardRound v pn pw c)"
    define char where "char = readCodePointsForward v (offset c) 1"
    have r: "forwardRound v pn pw c
        = checkCharacterForward (c\<lparr>offset := offset c + int (length char)\<rparr>) char
            (getCharacterAttributes char pn pw)"
      by (simp add: forwardRound_def Let_def char_def)
    have "(fst (forwardRound v pn pw c), snd (forwardRound v pn pw c))
        = checkCharacterForward (c\<lparr>offset := offset c + int (length char)\<rparr>) char
            (getCharacterAttributes char pn pw)"
      by (simp add: r)
    from "1.IH" [OF lt char_def refl refl this] nf
    show "P v pn pw (snd (forwardRound v pn pw c))" by simp
  qed
qed

lemma seekTextNodeBackward_loop_induct [case_names Round]:
  assumes "\<And>v pn pw c.
      (0 < offset c \<Longrightarrow> \<not> fst (backwardRound v pn pw c) \<Longrightarrow>
         P v pn pw (snd (backwardRound v pn pw c))) \<Longrightarrow> P v pn pw c"
  shows "P v pn pw c"
proof (induction v pn pw c rule: seekTextNodeBackward_loop.induct)
  case (1 v pn pw c)
  show ?case
  proof (rule assms)
    assume lt: "0 < offset c" and nf: "\<not> fst (backwardRound v pn pw c)"
    define char where "char = readCodePointsBackward v (offset c - 1) 1"
    have r: "backwardRound v pn pw c
        = checkCharacterBackward (c\<lparr>offset := offset c - int (length char)\<rparr>) char
            (getCharacterAttributes char pn pw)"
      by (simp add: backwardRound_def Let_def char_def)
    have "(fst (backwardRound v pn pw c), snd (backwardRound v pn pw c))
        = checkCharacterBackward (c\<lparr>offset := offset c - int (length char)\<rparr>) char
            (getCharacterAttributes char pn pw)"
      by (simp add: r)
    from "1.IH" [OF lt char_def refl refl this] nf
    show "P v pn pw (snd (backwardRound v pn pw c))" by simp
  qed
qed

text \<open>Scanning forward appends to the content, scanning backward prepends to it.\<close>

lemma checkCharacterForward_content:
  "prefix (content c) (content (snd (checkCharacterForward c char a)))"
  by (auto simp: checkCharacterForward_def emitCharacterForward_def appendCharacter_def Let_def)

lemma checkCharacterBackward_content:
  "suffix (content c) (content (snd (checkCharacterBackward c char a)))"
  by (auto simp: checkCharacterBackward_def emitCharacterBackward_def prependCharacter_def
      Let_def suffix_def)

lemma forwardRound_content: "prefix (content c) (content (snd (forwardRound v pn pw c)))"
  using checkCharacterForward_content
    [of "c\<lparr>offset := offset c + int (length (readCodePointsForward v (offset c) 1))\<rparr>"]
  by (simp add: forwardRound_def Let_def)

lemma backwardRound_content: "suffix (content c) (content (snd (backwardRound v pn pw c)))"
  using checkCharacterBackward_content
    [of "c\<lparr>offset := offset c - int (length (readCodePointsBackward v (offset c - 1) 1))\<rparr>"]
  by (simp add: backwardRound_def Let_def)

lemma seekTextNodeForward_loop_content:
  "prefix (content c) (content (seekTextNodeForward_loop v pn pw c))"
proof (induction v pn pw c rule: seekTextNodeForward_loop_induct)
  case (Round v pn pw c)
  show ?case
    using Round forwardRound_content [of c v pn pw]
    by (subst seekTextNodeForward_loop_unfold) (auto intro: prefix_order.trans)
qed

lemma seekTextNodeBackward_loop_content:
  "suffix (content c) (content (seekTextNodeBackward_loop v pn pw c))"
proof (induction v pn pw c rule: seekTextNodeBackward_loop_induct)
  case (Round v pn pw c)
  show ?case
    using Round backwardRound_content [of c v pn pw]
    by (subst seekTextNodeBackward_loop_unfold) (auto intro: suffix_order.trans)
qed

lemma seekTextNodeForward_content:
  "prefix (content c) (content (snd (seekTextNodeForward c n reset)))"
  using seekTextNodeForward_loop_content [of "c\<lparr>offset := 0\<rparr>"]
    seekTextNodeForward_loop_content [of c]
  by (cases reset) (auto simp: seekTextNodeForward_def Let_def split: prod.splits)

lemma seekTextNodeBackward_content:
  "suffix (content c) (content (snd (seekTextNodeBackward c n reset)))"
  using seekTextNodeBackward_loop_content [of "c\<lparr>offset := int (length (nodeValue n))\<rparr>"]
    seekTextNodeBackward_loop_content [of c]
  by (cases reset) (auto simp: seekTextNodeBackward_def Let_def split: prod.splits)

lemma seek_loop_content_forward:
  "seek_loop True c nd lastNode reset = Some c' \<Longrightarrow> prefix (content c) (content c')"
proof (induction c nd lastNode reset rule: seek_loop_induct [where forward = True])
  case (Done c lastNode reset)
  then show ?case by (auto simp: seek_loop_None)
next
  case (Visit c n lastNode reset)
  obtain cont c1 where r: "seekTextNodeForward c n reset = (cont, c1)" by fastforce
  obtain enterable nl where i: "getElementSeekInfo n = (enterable, nl)" by fastforce
  obtain next1 ex1 where g1: "getNextNode n True False [] = (next1, ex1)" by fastforce
  obtain next2 ex2 where g2: "getNextNode n True enterable [] = (next2, ex2)" by fastforce
  have p1: "prefix (content c) (content c1)"
    using seekTextNodeForward_content [of c n reset] r by simp
  show ?case
  proof (cases "nodeType n")
    case TEXT_NODE
    from Visit.prems show ?thesis
      unfolding seek_loop_text [where forward = True, simplified, OF TEXT_NODE r g1]
      using p1 Visit.IH [OF g1, of "exitNodes c1 ex1" n]
      by (auto split: if_splits intro: prefix_order.trans)
  next
    case ELEMENT_NODE
    from Visit.prems show ?thesis
      unfolding seek_loop_element [OF ELEMENT_NODE i g2]
      using Visit.IH [OF g2, of "exitNodes (raiseNewlines (c\<lparr>offset := 0\<rparr>) nl) ex2" n]
      by simp
  next
    case OTHER_NODE
    from Visit.prems show ?thesis
      unfolding seek_loop_other [OF OTHER_NODE g1]
      using Visit.IH [OF g1, of "exitNodes c ex1" lastNode]
      by simp
  qed
qed

lemma seek_loop_content_backward:
  "seek_loop False c nd lastNode reset = Some c' \<Longrightarrow> suffix (content c) (content c')"
proof (induction c nd lastNode reset rule: seek_loop_induct [where forward = False])
  case (Done c lastNode reset)
  then show ?case by (auto simp: seek_loop_None)
next
  case (Visit c n lastNode reset)
  obtain cont c1 where r: "seekTextNodeBackward c n reset = (cont, c1)" by fastforce
  obtain enterable nl where i: "getElementSeekInfo n = (enterable, nl)" by fastforce
  obtain next1 ex1 where g1: "getNextNode n False False [] = (next1, ex1)" by fastforce
  obtain next2 ex2 where g2: "getNextNode n False enterable [] = (next2, ex2)" by fastforce
  have p1: "suffix (content c) (content c1)"
    using seekTextNodeBackward_content [of c n reset] r by simp
  show ?case
  proof (cases "nodeType n")
    case TEXT_NODE
    from Visit.prems show ?thesis
      unfolding seek_loop_text [where forward = False, simplified, OF TEXT_NODE r g1]
      using p1 Visit.IH [OF g1, of "exitNodes c1 ex1" n]
      by (auto split: if_splits intro: suffix_order.trans)
  next
    case ELEMENT_NODE
    from Visit.prems show ?thesis
      unfolding seek_loop_element [OF ELEMENT_NODE i g2]
      using Visit.IH [OF g2, of "exitNodes (raiseNewlines (c\<lparr>offset := 0\<rparr>) nl) ex2" n]
      by simp
  next
    case OTHER_NODE
    from Visit.prems show ?thesis
      unfolding seek_loop_other [OF OTHER_NODE g1]
      using Visit.IH [OF g1, of "exitNodes c ex1" lastNode]
      by simp
  qed
qed


subsection \<open>Text of ordinary characters\<close>

lemma codeUnitAt_int [simp]:
  "codeUnitAt v (int i) = (if i < length v then Some (v ! i) else None)"
  by (simp add: codeUnitAt_def)

lemma codeUnitAt_int_Suc [simp]:
  "codeUnitAt v (int i + 1) = (if Suc i < length v then Some (v ! Suc i) else None)"
  using codeUnitAt_int [of v "Suc i"] by (simp add: add.commute)

lemma codeUnitAt_int_pred [simp]:
  "codeUnitAt v (int i - 1) = (if 0 < i \<and> i - 1 < length v then Some (v ! (i - 1)) else None)"
proof (cases i)
  case 0
  then show ?thesis by (simp add: codeUnitAt_def)
next
  case (Suc j)
  then show ?thesis using codeUnitAt_int [of v j] by simp
qed

lemma readCodePointsForward_one:
  "readCodePointsForward v (int i) (Suc 0) =
     (if i < length v
      then (if Suc i < length v \<and> isHighSurrogate (v ! i) \<and> isLowSurrogate (v ! Suc i)
            then [v ! i, v ! Suc i] else [v ! i])
      else [])"
  by (simp add: readCodePointsForward.simps)

lemma readCodePointsBackward_one:
  "readCodePointsBackward v (int i) (Suc 0) =
     (if i < length v
      then (if 0 < i \<and> isLowSurrogate (v ! i) \<and> isHighSurrogate (v ! (i - 1))
            then [v ! (i - 1), v ! i] else [v ! i])
      else [])"
  by (auto simp: readCodePointsBackward.simps)

lemma surrogates_disjoint: "isLowSurrogate u \<Longrightarrow> \<not> isHighSurrogate u"
  by (auto simp: isLowSurrogate_def isHighSurrogate_def)

lemma codePoints_drop:
  assumes "i < length v"
  shows "codePoints (drop i v)
      = Suc (codePoints (drop (i + length (readCodePointsForward v (int i) (Suc 0))) v))"
proof (cases "Suc i < length v")
  case True
  then have d: "drop i v = v ! i # v ! Suc i # drop (Suc (Suc i)) v"
    using assms by (simp add: Cons_nth_drop_Suc)
  have d1: "drop (Suc i) v = v ! Suc i # drop (Suc (Suc i)) v"
    using True by (simp add: Cons_nth_drop_Suc)
  show ?thesis using assms True by (simp add: readCodePointsForward_one d d1)
next
  case False
  with assms have "drop i v = [v ! i]"
    by (metis Cons_nth_drop_Suc drop_all not_less)
  with assms False show ?thesis by (simp add: readCodePointsForward_one)
qed

lemma step_boundary:
  assumes "i < length v"
  shows "codePointBoundary v (i + length (readCodePointsForward v (int i) (Suc 0)))"
  using assms
  by (auto simp: readCodePointsForward_one codePointBoundary_def dest: surrogates_disjoint)

lemma read_back:
  assumes "i < length v" and "codePointBoundary v i"
  shows "readCodePointsBackward v
           (int (i + length (readCodePointsForward v (int i) (Suc 0)) - Suc 0)) (Suc 0)
         = readCodePointsForward v (int i) (Suc 0)"
proof (cases "Suc i < length v \<and> isHighSurrogate (v ! i) \<and> isLowSurrogate (v ! Suc i)")
  case True
  then have "readCodePointsForward v (int i) (Suc 0) = [v ! i, v ! Suc i]"
    using assms by (simp add: readCodePointsForward_one)
  moreover have "readCodePointsBackward v (int (Suc i)) (Suc 0) = [v ! i, v ! Suc i]"
    by (subst readCodePointsBackward_one) (use True in simp)
  ultimately show ?thesis by (simp del: of_nat_Suc)
next
  case False
  then have f: "readCodePointsForward v (int i) (Suc 0) = [v ! i]"
    using assms by (auto simp: readCodePointsForward_one)
  have "\<not> (0 < i \<and> isLowSurrogate (v ! i) \<and> isHighSurrogate (v ! (i - 1)))"
    using assms by (auto simp: codePointBoundary_def)
  then have "readCodePointsBackward v (int i) (Suc 0) = [v ! i]"
    using assms by (auto simp: readCodePointsBackward_one)
  with f show ?thesis by simp
qed

lemma getCharacterAttributes_ordinary:
  "ordinary u \<Longrightarrow> getCharacterAttributes (u # us) pn pw = 2"
  by (auto simp: getCharacterAttributes_def ordinary_def)

lemma readCodePointsForward_hd:
  "i < length v \<Longrightarrow> \<exists>us. readCodePointsForward v (int i) (Suc 0) = v ! i # us"
  by (simp add: readCodePointsForward_one)

lemma readCodePointsForward_length:
  "i < length v \<Longrightarrow> 0 < length (readCodePointsForward v (int i) (Suc 0)) \<and>
     i + length (readCodePointsForward v (int i) (Suc 0)) \<le> length v"
  by (simp add: readCodePointsForward_one)

lemma forwardRound_ordinary:
  assumes ord: "\<forall>u\<in>set v. ordinary u" and off: "offset c = int i" and lt: "i < length v"
    and cl: "clean c"
  shows "forwardRound v pn pw c =
     (remainder c - 1 \<le> 0,
      c\<lparr>offset := int (i + length (readCodePointsForward v (int i) (Suc 0))),
        content := content c @ readCodePointsForward v (int i) (Suc 0),
        remainder := remainder c - 1, lineHasContent := True\<rparr>)"
proof -
  obtain us where p: "readCodePointsForward v (int i) (Suc 0) = v ! i # us"
    using readCodePointsForward_hd [OF lt] by blast
  have "ordinary (v ! i)" using ord lt by simp
  then have a: "getCharacterAttributes (v ! i # us) pn pw = 2"
    by (rule getCharacterAttributes_ordinary)
  show ?thesis
    using cl
    by (simp add: forwardRound_def off p a checkCharacterForward_def emitCharacterForward_def
        appendCharacter_def clean_def)
qed

lemma seekTextNodeForward_loop_ordinary:
  assumes ord: "\<forall>u\<in>set v. ordinary u"
  shows "offset c = int i \<Longrightarrow> clean c \<Longrightarrow> remainder c = int k \<Longrightarrow> 0 < k \<Longrightarrow>
     k \<le> codePoints (drop i v) \<Longrightarrow>
     remainder (seekTextNodeForward_loop v pn pw c) = 0
     \<and> offset (seekTextNodeForward_loop v pn pw c) = int (skipForward v i k)
     \<and> clean (seekTextNodeForward_loop v pn pw c)"
proof (induction k arbitrary: c i)
  case 0
  then show ?case by simp
next
  case (Suc k)
  have lt: "i < length v"
    using Suc.prems(5) by (cases "i < length v") auto
  let ?p = "readCodePointsForward v (int i) (Suc 0)"
  let ?c1 = "c\<lparr>offset := int (i + length ?p), content := content c @ ?p,
        remainder := remainder c - 1, lineHasContent := True\<rparr>"
  have round: "forwardRound v pn pw c = (remainder c - 1 \<le> 0, ?c1)"
    using forwardRound_ordinary [OF ord Suc.prems(1) lt Suc.prems(2)] .
  have lt': "offset c < int (length v)" using lt Suc.prems(1) by simp
  show ?case
  proof (cases k)
    case 0
    with Suc.prems round lt' show ?thesis
      by (subst (1 2 3) seekTextNodeForward_loop_unfold) (simp add: clean_def)
  next
    case (Suc j)
    have cp: "k \<le> codePoints (drop (i + length ?p) v)"
      using Suc.prems(5) codePoints_drop [OF lt] by simp
    have ih: "remainder (seekTextNodeForward_loop v pn pw ?c1) = 0
     \<and> offset (seekTextNodeForward_loop v pn pw ?c1) = int (skipForward v (i + length ?p) k)
     \<and> clean (seekTextNodeForward_loop v pn pw ?c1)"
      using Suc.prems Suc cp by (intro Suc.IH) (simp_all add: clean_def)
    have "seekTextNodeForward_loop v pn pw c = seekTextNodeForward_loop v pn pw ?c1"
      using round lt' Suc.prems(3) Suc
      by (subst seekTextNodeForward_loop_unfold) simp
    with ih show ?thesis by simp
  qed
qed

lemma skipForward_snoc:
  "skipForward v i (Suc k) =
     skipForward v i k + length (readCodePointsForward v (int (skipForward v i k)) (Suc 0))"
  by (induction k arbitrary: i) (simp_all del: of_nat_add)

lemma skipForward_codePoints:
  "k \<le> codePoints (drop i v) \<Longrightarrow>
     codePoints (drop (skipForward v i k) v) = codePoints (drop i v) - k"
proof (induction k arbitrary: i)
  case 0
  then show ?case by simp
next
  case (Suc k)
  then have lt: "i < length v" by (cases "i < length v") auto
  from Suc.prems codePoints_drop [OF lt]
  have "k \<le> codePoints (drop (i + length (readCodePointsForward v (int i) (Suc 0))) v)"
    by simp
  from Suc.IH [OF this] codePoints_drop [OF lt] show ?case by simp
qed

lemma skipForward_boundary:
  "codePointBoundary v i \<Longrightarrow> k \<le> codePoints (drop i v) \<Longrightarrow>
     codePointBoundary v (skipForward v i k)"
proof (induction k arbitrary: i)
  case 0
  then show ?case by simp
next
  case (Suc k)
  then have lt: "i < length v" by (cases "i < length v") auto
  from Suc.prems codePoints_drop [OF lt]
  have "k \<le> codePoints (drop (i + length (readCodePointsForward v (int i) (Suc 0))) v)"
    by simp
  from Suc.IH [OF step_boundary [OF lt] this] show ?case by simp
qed

lemma backwardRound_ordinary:
  assumes ord: "\<forall>u\<in>set v. ordinary u"
    and off: "offset c = int (m + length (readCodePointsForward v (int m) (Suc 0)))"
    and lt: "m < length v" and bd: "codePointBoundary v m"
    and cl: "clean c"
  shows "backwardRound v pn pw c =
     (remainder c - 1 \<le> 0,
      c\<lparr>offset := int m,
        content := readCodePointsForward v (int m) (Suc 0) @ content c,
        remainder := remainder c - 1, lineHasContent := True\<rparr>)"
proof -
  let ?p = "readCodePointsForward v (int m) (Suc 0)"
  obtain us where p: "?p = v ! m # us"
    using readCodePointsForward_hd [OF lt] by blast
  have "ordinary (v ! m)" using ord lt by simp
  then have a: "getCharacterAttributes (v ! m # us) pn pw = 2"
    by (rule getCharacterAttributes_ordinary)
  define l where "l = length ?p"
  have "0 < l"
    unfolding l_def using readCodePointsForward_length [OF lt] by blast
  moreover have "offset c = int (m + l)"
    using off by (simp add: l_def)
  ultimately have "offset c - 1 = int (m + l - Suc 0)"
    by (cases l) simp_all
  then have "offset c - 1 = int (m + length ?p - Suc 0)"
    by (simp only: l_def)
  then have rd: "readCodePointsBackward v (offset c - 1) (Suc 0) = ?p"
    using read_back [OF lt bd] by simp
  have "backwardRound v pn pw c
      = checkCharacterBackward (c\<lparr>offset := offset c - int (length ?p)\<rparr>) ?p
          (getCharacterAttributes ?p pn pw)"
    by (simp add: backwardRound_def rd Let_def)
  also have "offset c - int (length ?p) = int m"
    using off by simp
  finally show ?thesis
    using cl
    by (simp add: p a checkCharacterBackward_def emitCharacterBackward_def
        prependCharacter_def clean_def)
qed

lemma seekTextNodeBackward_loop_ordinary:
  assumes ord: "\<forall>u\<in>set v. ordinary u" and bd: "codePointBoundary v i"
  shows "offset c = int (skipForward v i k) \<Longrightarrow> clean c \<Longrightarrow> remainder c = int k \<Longrightarrow>
     0 < k \<Longrightarrow> k \<le> codePoints (drop i v) \<Longrightarrow>
     remainder (seekTextNodeBackward_loop v pn pw c) = 0
     \<and> offset (seekTextNodeBackward_loop v pn pw c) = int i"
proof (induction k arbitrary: c)
  case 0
  then show ?case by simp
next
  case (Suc k)
  let ?m = "skipForward v i k"
  let ?p = "readCodePointsForward v (int ?m) (Suc 0)"
  have k: "k \<le> codePoints (drop i v)" using Suc.prems(5) by simp
  have "codePoints (drop ?m v) = codePoints (drop i v) - k"
    using skipForward_codePoints [OF k] .
  with Suc.prems(5) have "0 < codePoints (drop ?m v)" by simp
  then have lt: "?m < length v" by (cases "?m < length v") auto
  have bm: "codePointBoundary v ?m" using skipForward_boundary [OF bd k] .
  have off: "offset c = int (?m + length ?p)"
    using Suc.prems(1) by (simp only: skipForward_snoc)
  let ?c1 = "c\<lparr>offset := int ?m, content := ?p @ content c,
        remainder := remainder c - 1, lineHasContent := True\<rparr>"
  have round: "backwardRound v pn pw c = (remainder c - 1 \<le> 0, ?c1)"
    using backwardRound_ordinary [OF ord off lt bm Suc.prems(2)] .
  have "0 < length ?p"
    using readCodePointsForward_length [OF lt] by blast
  then have pos: "0 < offset c"
    unfolding off by linarith
  show ?case
  proof (cases "k = 0")
    case True
    with Suc.prems round pos show ?thesis
      by (subst (1 2) seekTextNodeBackward_loop_unfold) simp
  next
    case False
    have ih: "remainder (seekTextNodeBackward_loop v pn pw ?c1) = 0
     \<and> offset (seekTextNodeBackward_loop v pn pw ?c1) = int i"
      using Suc.prems False k by (intro Suc.IH) (simp_all add: clean_def)
    have "seekTextNodeBackward_loop v pn pw c = seekTextNodeBackward_loop v pn pw ?c1"
      using round pos Suc.prems(3) False
      by (subst seekTextNodeBackward_loop_unfold) simp
    with ih show ?thesis by simp
  qed
qed

lemma DOMTextScanner_plain:
  assumes "getParentRubyElement t = None"
  shows "DOMTextScanner t off fp gl =
     \<lparr> node = t, offset = off, content = [], remainder = 0, resetOffset = False,
       newlines = 0, lineHasWhitespace = False, lineHasContent = False,
       forcePreserveWhitespace = fp, generateLayoutContent = gl \<rparr>"
  using assms by (simp add: DOMTextScanner_def)

subsection \<open>Documents that differ inside skipped elements\<close>

lemma sameNode_label: "sameNode n n' \<Longrightarrow> nodeLabel n = nodeLabel n'"
  by (cases n rule: nodeLabel.cases; cases n' rule: nodeLabel.cases) (simp add: sameNode_def)

lemma sameNode_fields:
  assumes "sameNode n n'"
  shows "nodeType n = nodeType n'" "nodeName n = nodeName n'" "nodeValue n = nodeValue n'"
    "getComputedStyle n = getComputedStyle n'"
  using sameNode_label [OF assms]
  by (simp_all add: nodeType_def nodeName_def nodeValue_def getComputedStyle_def)

lemma sameNode_seekInfo:
  assumes "sameNode n n'"
  shows "getElementSeekInfo n = getElementSeekInfo n'"
  unfolding getElementSeekInfo_def
  by (simp only: sameNode_fields(2) [OF assms] sameNode_fields(4) [OF assms])

lemma sameNode_nextSibling:
  "sameNode n n' \<Longrightarrow> rel_option sameNode (nextSibling n) (nextSibling n')"
  by (cases n rule: nextSibling.cases; cases n' rule: nextSibling.cases)
     (auto simp: sameNode_def)

lemma sameNode_previousSibling:
  "sameNode n n' \<Longrightarrow> rel_option sameNode (previousSibling n) (previousSibling n')"
  by (cases n rule: previousSibling.cases; cases n' rule: previousSibling.cases)
     (auto simp: sameNode_def)

lemma sameNode_parentNode:
  "sameNode n n' \<Longrightarrow> rel_option sameNode (parentNode n) (parentNode n')"
  by (cases n rule: parentNode.cases; cases n' rule: parentNode.cases)
     (auto simp: sameNode_def list_all2_appendI)

lemma sameNode_firstChild:
  "sameNode n n' \<Longrightarrow> \<not> skippedLabel (nodeLabel n) \<Longrightarrow>
     rel_option sameNode (firstChild n) (firstChild n')"
  by (cases n rule: firstChild.cases; cases n' rule: firstChild.cases)
     (auto simp: sameNode_def)

lemma sameNode_lastChild:
  assumes "sameNode n n'" and "\<not> skippedLabel (nodeLabel n)"
  shows "rel_option sameNode (lastChild n) (lastChild n')"
proof -
  obtain l cs ctx where n: "n = (Node l cs, ctx)" by (cases n rule: lastChild.cases) auto
  obtain l' cs' ctx' where n': "n' = (Node l' cs', ctx')"
    by (cases n' rule: lastChild.cases) auto
  from assms n n' have l: "l' = l" and cs: "list_all2 sameOutsideSkipped cs cs'"
    and ctx: "list_all2 sameCrumb ctx ctx'"
    by (auto simp: sameNode_def)
  show ?thesis
  proof (cases "cs = []")
    case True
    with cs n n' show ?thesis by simp
  next
    case False
    with cs have ne: "cs' \<noteq> []" by auto
    from cs have len: "length cs = length cs'" by (rule list_all2_lengthD)
    have "list_all2 sameOutsideSkipped (butlast cs) (butlast cs')"
      using cs len by (simp add: butlast_conv_take list_all2_takeI)
    moreover have "sameOutsideSkipped (last cs) (last cs')"
      using cs False ne len by (simp add: last_conv_nth list_all2_nthD)
    ultimately show ?thesis
      using False ne n n' l ctx by (simp add: sameNode_def)
  qed
qed

lemma skipped_seekInfo:
  "skippedLabel (nodeLabel e) \<Longrightarrow> getElementSeekInfo e = (False, 0)"
  by (auto simp: skippedLabel_def getElementSeekInfo_def nodeName_def split: label.splits)

lemma enterable_not_skipped:
  "fst (getElementSeekInfo n) \<Longrightarrow> \<not> skippedLabel (nodeLabel n)"
  using skipped_seekInfo [of n] by auto

lemma sameNode_climb:
  "sameNode n n' \<Longrightarrow> list_all2 sameNode ex ex' \<Longrightarrow>
     rel_prod (rel_option sameNode) (list_all2 sameNode)
       (getNextNode_climb n forward ex) (getNextNode_climb n' forward ex')"
proof (induction n forward ex arbitrary: n' ex' rule: getNextNode_climb.induct)
  case (1 n forward ex)
  have ex1: "list_all2 sameNode (ex @ [n]) (ex' @ [n'])"
    using "1.prems" by (simp add: list_all2_appendI)
  have sib: "rel_option sameNode (if forward then nextSibling n else previousSibling n)
      (if forward then nextSibling n' else previousSibling n')"
    using "1.prems"(1) by (simp add: sameNode_nextSibling sameNode_previousSibling)
  show ?case
  proof (cases "if forward then nextSibling n else previousSibling n")
    case (Some s)
    with sib obtain s' where
      s': "(if forward then nextSibling n' else previousSibling n') = Some s'"
      and ss: "sameNode s s'"
      by (auto simp: option_rel_Some1)
    show ?thesis
      using Some s' ss ex1
      by (subst getNextNode_climb.simps, subst (2) getNextNode_climb.simps) (simp add: Let_def)
  next
    case None
    with sib have none': "(if forward then nextSibling n' else previousSibling n') = None"
      by auto
    have par: "rel_option sameNode (parentNode n) (parentNode n')"
      using "1.prems"(1) by (rule sameNode_parentNode)
    show ?thesis
    proof (cases "parentNode n")
      case pn: None
      with par have "parentNode n' = None" by auto
      with pn None none' ex1 show ?thesis
        by (subst getNextNode_climb.simps, subst (2) getNextNode_climb.simps)
           (simp add: Let_def)
    next
      case (Some p)
      with par obtain p' where p': "parentNode n' = Some p'" and pp: "sameNode p p'"
        by (auto simp: option_rel_Some1)
      from "1.IH" [OF refl None Some pp ex1]
      show ?thesis
        using None none' Some p'
        by (subst getNextNode_climb.simps, subst (2) getNextNode_climb.simps)
           (simp add: Let_def)
    qed
  qed
qed

lemma sameNode_getNextNode:
  assumes "sameNode n n'" and "visitChildren \<longrightarrow> \<not> skippedLabel (nodeLabel n)"
  shows "rel_prod (rel_option sameNode) (list_all2 sameNode)
       (getNextNode n forward visitChildren []) (getNextNode n' forward visitChildren [])"
proof -
  have child: "rel_option sameNode
      (if visitChildren then (if forward then firstChild n else lastChild n) else None)
      (if visitChildren then (if forward then firstChild n' else lastChild n') else None)"
    using assms by (auto simp: sameNode_firstChild sameNode_lastChild)
  show ?thesis
  proof (cases "if visitChildren then (if forward then firstChild n else lastChild n) else None")
    case None
    with child have "(if visitChildren then (if forward then firstChild n' else lastChild n')
        else None) = None"
      by auto
    with None sameNode_climb [OF assms(1), of "[]" "[]" forward] show ?thesis
      by (simp add: getNextNode_def)
  next
    case (Some ch)
    with child obtain ch' where
      "(if visitChildren then (if forward then firstChild n' else lastChild n') else None)
        = Some ch'" and "sameNode ch ch'"
      by (auto simp: option_rel_Some1)
    with Some show ?thesis by (simp add: getNextNode_def)
  qed
qed

lemma sameNode_getParentElement:
  "rel_option sameNode nd nd' \<Longrightarrow>
     rel_option sameNode (getParentElement nd) (getParentElement nd')"
proof (induction nd arbitrary: nd' rule: getParentElement.induct)
  case (1 nd)
  show ?case
  proof (cases nd)
    case None
    with "1.prems" have "nd' = None" by auto
    with None show ?thesis
      by (subst getParentElement.simps, subst (2) getParentElement.simps) simp
  next
    case (Some n)
    with "1.prems" obtain n' where n': "nd' = Some n'" and nn: "sameNode n n'"
      by (auto simp: option_rel_Some1)
    show ?thesis
    proof (cases "nodeType n = ELEMENT_NODE")
      case True
      with Some n' nn sameNode_fields(1) [OF nn] show ?thesis
        by (subst getParentElement.simps, subst (2) getParentElement.simps) simp
    next
      case False
      from "1.IH" [OF Some False sameNode_parentNode [OF nn]]
      show ?thesis
        using Some n' False sameNode_fields(1) [OF nn]
        by (subst getParentElement.simps, subst (2) getParentElement.simps) simp
    qed
  qed
qed

lemma sameButNode_appendCharacter:
  "sameButNode c1 c2 \<Longrightarrow>
     fst (appendCharacter c1 char) = fst (appendCharacter c2 char)
     \<and> sameButNode (snd (appendCharacter c1 char)) (snd (appendCharacter c2 char))"
  by (simp add: sameButNode_def appendCharacter_def Let_def)

lemma sameButNode_prependCharacter:
  "sameButNode c1 c2 \<Longrightarrow>
     fst (prependCharacter c1 char) = fst (prependCharacter c2 char)
     \<and> sameButNode (snd (prependCharacter c1 char)) (snd (prependCharacter c2 char))"
  by (simp add: sameButNode_def prependCharacter_def Let_def)

lemma sameButNode_update:
  "sameButNode c1 c2 \<Longrightarrow> sameButNode (c1\<lparr>offset := x\<rparr>) (c2\<lparr>offset := x\<rparr>)"
  "sameButNode c1 c2 \<Longrightarrow> sameButNode (c1\<lparr>lineHasContent := b\<rparr>) (c2\<lparr>lineHasContent := b\<rparr>)"
  "sameButNode c1 c2 \<Longrightarrow> sameButNode (c1\<lparr>lineHasWhitespace := b\<rparr>) (c2\<lparr>lineHasWhitespace := b\<rparr>)"
  "sameButNode c1 c2 \<Longrightarrow> sameButNode (c1\<lparr>newlines := k\<rparr>) (c2\<lparr>newlines := k\<rparr>)"
  "sameButNode c1 c2 \<Longrightarrow> sameButNode (c1\<lparr>remainder := k\<rparr>) (c2\<lparr>remainder := k\<rparr>)"
  "sameButNode c1 c2 \<Longrightarrow> sameButNode (c1\<lparr>content := s\<rparr>) (c2\<lparr>content := s\<rparr>)"
  "sameButNode c1 c2 \<Longrightarrow> sameButNode (c1\<lparr>node := n1, resetOffset := b\<rparr>) (c2\<lparr>node := n2, resetOffset := b\<rparr>)"
  by (simp_all add: sameButNode_def)

lemma sameButNode_emitCharacterForward:
  assumes "sameButNode c1 c2"
  shows "fst (emitCharacterForward c1 char a) = fst (emitCharacterForward c2 char a)
     \<and> sameButNode (snd (emitCharacterForward c1 char a)) (snd (emitCharacterForward c2 char a))"
proof -
  have eq: "lineHasWhitespace c1 = lineHasWhitespace c2" "remainder c1 = remainder c2"
    "content c1 = content c2" "offset c1 = offset c2"
    using assms by (simp_all add: sameButNode_def)
  show ?thesis
    unfolding emitCharacterForward_def Let_def
    using assms
    by (auto simp: eq intro!: sameButNode_update
        sameButNode_appendCharacter [THEN conjunct1] sameButNode_appendCharacter [THEN conjunct2])
qed

lemma sameButNode_emitCharacterBackward:
  "sameButNode c1 c2 \<Longrightarrow>
     fst (emitCharacterBackward c1 char a) = fst (emitCharacterBackward c2 char a)
     \<and> sameButNode (snd (emitCharacterBackward c1 char a)) (snd (emitCharacterBackward c2 char a))"
  by (simp add: sameButNode_def emitCharacterBackward_def prependCharacter_def Let_def)

lemma sameButNode_checkCharacterForward:
  assumes "sameButNode c1 c2"
  shows "fst (checkCharacterForward c1 char a) = fst (checkCharacterForward c2 char a)
     \<and> sameButNode (snd (checkCharacterForward c1 char a)) (snd (checkCharacterForward c2 char a))"
proof -
  have eq: "newlines c1 = newlines c2" "remainder c1 = remainder c2"
    "content c1 = content c2" "offset c1 = offset c2"
    using assms by (simp_all add: sameButNode_def)
  define d1 where "d1 = (if 0 < length (content c1)
      then c1\<lparr>content := content c1 @ replicate (nat (min (remainder c1) (newlines c1))) 0x0A,
             remainder := remainder c1 - min (remainder c1) (newlines c1),
             newlines := newlines c1 - min (remainder c1) (newlines c1)\<rparr>
      else c1\<lparr>newlines := 0\<rparr>)\<lparr>lineHasContent := False, lineHasWhitespace := False\<rparr>"
  define d2 where "d2 = (if 0 < length (content c2)
      then c2\<lparr>content := content c2 @ replicate (nat (min (remainder c2) (newlines c2))) 0x0A,
             remainder := remainder c2 - min (remainder c2) (newlines c2),
             newlines := newlines c2 - min (remainder c2) (newlines c2)\<rparr>
      else c2\<lparr>newlines := 0\<rparr>)\<lparr>lineHasContent := False, lineHasWhitespace := False\<rparr>"
  have d: "sameButNode d1 d2"
    using assms by (simp add: d1_def d2_def sameButNode_def)
  then have dr: "remainder d1 = remainder d2" "offset d1 = offset d2"
    by (simp_all add: sameButNode_def)
  have c1: "checkCharacterForward c1 char a =
     (if a = 1 then (False, c1\<lparr>lineHasWhitespace := True\<rparr>)
      else if a = 2 \<or> a = 3
      then (if 0 < newlines c1
            then (if remainder d1 \<le> 0 then (True, d1\<lparr>offset := offset d1 - int (length char)\<rparr>)
                  else emitCharacterForward d1 char a)
            else emitCharacterForward c1 char a)
      else (False, c1))"
    by (simp add: checkCharacterForward_def Let_def d1_def)
  have c2: "checkCharacterForward c2 char a =
     (if a = 1 then (False, c2\<lparr>lineHasWhitespace := True\<rparr>)
      else if a = 2 \<or> a = 3
      then (if 0 < newlines c2
            then (if remainder d2 \<le> 0 then (True, d2\<lparr>offset := offset d2 - int (length char)\<rparr>)
                  else emitCharacterForward d2 char a)
            else emitCharacterForward c2 char a)
      else (False, c2))"
    by (simp add: checkCharacterForward_def Let_def d2_def)
  show ?thesis
    unfolding c1 c2
    using assms d sameButNode_emitCharacterForward [OF assms, of char a]
      sameButNode_emitCharacterForward [OF d, of char a]
    by (auto simp: eq dr sameButNode_update)
qed

lemma sameButNode_checkCharacterBackward:
  assumes "sameButNode c1 c2"
  shows "fst (checkCharacterBackward c1 char a) = fst (checkCharacterBackward c2 char a)
     \<and> sameButNode (snd (checkCharacterBackward c1 char a)) (snd (checkCharacterBackward c2 char a))"
proof -
  have eq: "newlines c1 = newlines c2" "remainder c1 = remainder c2"
    "content c1 = content c2" "offset c1 = offset c2"
    using assms by (simp_all add: sameButNode_def)
  define d1 where "d1 = (if 0 < length (content c1)
      then c1\<lparr>content := replicate (nat (min (remainder c1) (newlines c1))) 0x0A @ content c1,
             remainder := remainder c1 - min (remainder c1) (newlines c1),
             newlines := newlines c1 - min (remainder c1) (newlines c1)\<rparr>
      else c1\<lparr>newlines := 0\<rparr>)\<lparr>lineHasContent := False, lineHasWhitespace := False\<rparr>"
  define d2 where "d2 = (if 0 < length (content c2)
      then c2\<lparr>content := replicate (nat (min (remainder c2) (newlines c2))) 0x0A @ content c2,
             remainder := remainder c2 - min (remainder c2) (newlines c2),
             newlines := newlines c2 - min (remainder c2) (newlines c2)\<rparr>
      else c2\<lparr>newlines := 0\<rparr>)\<lparr>lineHasContent := False, lineHasWhitespace := False\<rparr>"
  have d: "sameButNode d1 d2"
    using assms by (simp add: d1_def d2_def sameButNode_def)
  then have dr: "remainder d1 = remainder d2" "offset d1 = offset d2"
    by (simp_all add: sameButNode_def)
  have c1: "checkCharacterBackward c1 char a =
     (if a = 1 then (False, c1\<lparr>lineHasWhitespace := True\<rparr>)
      else if a = 2 \<or> a = 3
      then (if 0 < newlines c1
            then (if remainder d1 \<le> 0 then (True, d1\<lparr>offset := offset d1 + int (length char)\<rparr>)
                  else emitCharacterBackward d1 char a)
            else emitCharacterBackward c1 char a)
      else (False, c1))"
    by (simp add: checkCharacterBackward_def Let_def d1_def)
  have c2: "checkCharacterBackward c2 char a =
     (if a = 1 then (False, c2\<lparr>lineHasWhitespace := True\<rparr>)
      else if a = 2 \<or> a = 3
      then (if 0 < newlines c2
            then (if remainder d2 \<le> 0 then (True, d2\<lparr>offset := offset d2 + int (length char)\<rparr>)
                  else emitCharacterBackward d2 char a)
            else emitCharacterBackward c2 char a)
      else (False, c2))"
    by (simp add: checkCharacterBackward_def Let_def d2_def)
  show ?thesis
    unfolding c1 c2
    using assms d sameButNode_emitCharacterBackward [OF assms, of char a]
      sameButNode_emitCharacterBackward [OF d, of char a]
    by (auto simp: eq dr sameButNode_update)
qed

lemma sameButNode_forwardRound:
  assumes "sameButNode c1 c2"
  shows "fst (forwardRound v pn pw c1) = fst (forwardRound v pn pw c2)
     \<and> sameButNode (snd (forwardRound v pn pw c1)) (snd (forwardRound v pn pw c2))"
proof -
  have off: "offset c1 = offset c2" using assms by (simp add: sameButNode_def)
  show ?thesis
    unfolding forwardRound_def Let_def off
    by (intro sameButNode_checkCharacterForward sameButNode_update assms)
qed

lemma sameButNode_backwardRound:
  assumes "sameButNode c1 c2"
  shows "fst (backwardRound v pn pw c1) = fst (backwardRound v pn pw c2)
     \<and> sameButNode (snd (backwardRound v pn pw c1)) (snd (backwardRound v pn pw c2))"
proof -
  have off: "offset c1 = offset c2" using assms by (simp add: sameButNode_def)
  show ?thesis
    unfolding backwardRound_def Let_def off
    by (intro sameButNode_checkCharacterBackward sameButNode_update assms)
qed

lemma sameButNode_forward_loop:
  "sameButNode c1 c2 \<Longrightarrow>
     sameButNode (seekTextNodeForward_loop v pn pw c1) (seekTextNodeForward_loop v pn pw c2)"
proof (induction v pn pw c1 arbitrary: c2 rule: seekTextNodeForward_loop_induct)
  case (Round v pn pw c1)
  have off: "offset c1 = offset c2" using Round.prems by (simp add: sameButNode_def)
  note r = sameButNode_forwardRound [OF Round.prems, of v pn pw]
  show ?case
    using Round.IH [OF _ _ r [THEN conjunct2]] r Round.prems
    by (subst seekTextNodeForward_loop_unfold, subst (2) seekTextNodeForward_loop_unfold)
       (simp add: off)
qed

lemma sameButNode_backward_loop:
  "sameButNode c1 c2 \<Longrightarrow>
     sameButNode (seekTextNodeBackward_loop v pn pw c1) (seekTextNodeBackward_loop v pn pw c2)"
proof (induction v pn pw c1 arbitrary: c2 rule: seekTextNodeBackward_loop_induct)
  case (Round v pn pw c1)
  have off: "offset c1 = offset c2" using Round.prems by (simp add: sameButNode_def)
  note r = sameButNode_backwardRound [OF Round.prems, of v pn pw]
  show ?case
    using Round.IH [OF _ _ r [THEN conjunct2]] r Round.prems
    by (subst seekTextNodeBackward_loop_unfold, subst (2) seekTextNodeBackward_loop_unfold)
       (simp add: off)
qed

lemma same_getWhitespaceSettings:
  assumes "sameNode n n'" and "sameButNode c1 c2"
  shows "getWhitespaceSettings c1 n = getWhitespaceSettings c2 n'"
proof -
  have f: "forcePreserveWhitespace c1 = forcePreserveWhitespace c2"
    using assms(2) by (simp add: sameButNode_def)
  have "rel_option sameNode (getParentElement (Some n)) (getParentElement (Some n'))"
    using assms(1) by (intro sameNode_getParentElement) simp
  then show ?thesis
    by (cases "getParentElement (Some n)"; cases "getParentElement (Some n')")
       (auto simp: getWhitespaceSettings_def f dest: sameNode_fields(4))
qed

lemma same_seekTextNodeForward:
  assumes "sameNode n n'" and "sameButNode c1 c2"
  shows "fst (seekTextNodeForward c1 n reset) = fst (seekTextNodeForward c2 n' reset)
     \<and> sameButNode (snd (seekTextNodeForward c1 n reset)) (snd (seekTextNodeForward c2 n' reset))"
proof -
  obtain pn pw where ws: "getWhitespaceSettings c1 n = (pn, pw)" by fastforce
  then have ws': "getWhitespaceSettings c2 n' = (pn, pw)"
    using same_getWhitespaceSettings [OF assms] by simp
  have "sameButNode (if reset then c1\<lparr>offset := 0\<rparr> else c1)
      (if reset then c2\<lparr>offset := 0\<rparr> else c2)"
    using assms(2) by (simp add: sameButNode_update)
  from sameButNode_forward_loop [OF this, of "nodeValue n" pn pw]
  show ?thesis
    by (cases reset)
       (simp_all add: seekTextNodeForward_def ws ws' sameNode_fields(3) [OF assms(1), symmetric]
        sameButNode_def Let_def)
qed

lemma same_seekTextNodeBackward:
  assumes "sameNode n n'" and "sameButNode c1 c2"
  shows "fst (seekTextNodeBackward c1 n reset) = fst (seekTextNodeBackward c2 n' reset)
     \<and> sameButNode (snd (seekTextNodeBackward c1 n reset)) (snd (seekTextNodeBackward c2 n' reset))"
proof -
  obtain pn pw where ws: "getWhitespaceSettings c1 n = (pn, pw)" by fastforce
  then have ws': "getWhitespaceSettings c2 n' = (pn, pw)"
    using same_getWhitespaceSettings [OF assms] by simp
  have "sameButNode (if reset then c1\<lparr>offset := int (length (nodeValue n))\<rparr> else c1)
      (if reset then c2\<lparr>offset := int (length (nodeValue n))\<rparr> else c2)"
    using assms(2) by (simp add: sameButNode_update)
  from sameButNode_backward_loop [OF this, of "nodeValue n" pn pw]
  show ?thesis
    by (cases reset)
       (simp_all add: seekTextNodeBackward_def ws ws' sameNode_fields(3) [OF assms(1), symmetric]
        sameButNode_def Let_def)
qed

lemma same_raiseNewlines:
  "sameButNode c1 c2 \<Longrightarrow> sameButNode (raiseNewlines c1 k) (raiseNewlines c2 k)"
  by (simp add: raiseNewlines_def sameButNode_def)

lemma same_exitNodes:
  "list_all2 sameNode ex ex' \<Longrightarrow> sameButNode c1 c2 \<Longrightarrow>
     sameButNode (exitNodes c1 ex) (exitNodes c2 ex')"
proof (induction ex ex' arbitrary: c1 c2 rule: list_all2_induct)
  case Nil
  then show ?case by simp
next
  case (Cons x xs y ys)
  show ?case
    using Cons.IH [OF Cons.prems]
      Cons.IH [OF same_raiseNewlines [OF Cons.prems, of "snd (getElementSeekInfo x)"]]
    by (simp add: sameNode_fields(1) [OF Cons.hyps(1), symmetric]
        sameNode_seekInfo [OF Cons.hyps(1), symmetric])
qed

lemma seek_loop_same:
  "rel_option sameNode nd nd' \<Longrightarrow> sameNode lastNode lastNode' \<Longrightarrow> sameButNode c c' \<Longrightarrow>
     rel_option sameResult (seek_loop forward c nd lastNode reset)
       (seek_loop forward c' nd' lastNode' reset)"
proof (induction c nd lastNode reset arbitrary: nd' lastNode' c'
    rule: seek_loop_induct [where forward = forward])
  case (Done c lastNode reset)
  then show ?case by (simp add: seek_loop_None sameResult_def sameButNode_def)
next
  case (Visit c n lastNode reset)
  from Visit.prems obtain n' where nd': "nd' = Some n'" and nn: "sameNode n n'"
    by (auto simp: option_rel_Some1)
  note cc = Visit.prems(3)
  note ty = sameNode_fields(1) [OF nn]
  obtain cont c1 where r: "(if forward then seekTextNodeForward c n reset
      else seekTextNodeBackward c n reset) = (cont, c1)"
    by fastforce
  obtain cont' c1' where r': "(if forward then seekTextNodeForward c' n' reset
      else seekTextNodeBackward c' n' reset) = (cont', c1')"
    by fastforce
  have rr: "cont' = cont" "sameButNode c1 c1'"
    using same_seekTextNodeForward [OF nn cc, of reset]
      same_seekTextNodeBackward [OF nn cc, of reset] r r'
    by (auto split: if_splits)
  obtain enterable nl where i: "getElementSeekInfo n = (enterable, nl)" by fastforce
  then have i': "getElementSeekInfo n' = (enterable, nl)"
    by (simp add: sameNode_seekInfo [OF nn])
  have ent: "enterable \<longrightarrow> \<not> skippedLabel (nodeLabel n)"
    using enterable_not_skipped [of n] i by simp
  obtain next1 ex1 where g1: "getNextNode n forward False [] = (next1, ex1)" by fastforce
  obtain next1' ex1' where g1': "getNextNode n' forward False [] = (next1', ex1')" by fastforce
  obtain next2 ex2 where g2: "getNextNode n forward enterable [] = (next2, ex2)" by fastforce
  obtain next2' ex2' where g2': "getNextNode n' forward enterable [] = (next2', ex2')"
    by fastforce
  have s1: "rel_option sameNode next1 next1'" "list_all2 sameNode ex1 ex1'"
    using sameNode_getNextNode [OF nn, of False forward] g1 g1' by simp_all
  have s2: "rel_option sameNode next2 next2'" "list_all2 sameNode ex2 ex2'"
    using sameNode_getNextNode [OF nn ent, of forward] g2 g2' by simp_all
  show ?case
  proof (cases "nodeType n")
    case TEXT_NODE
    show ?thesis
      unfolding nd' seek_loop_text [OF TEXT_NODE r g1]
        seek_loop_text [OF TEXT_NODE [unfolded ty] r' g1']
      using Visit.IH [OF g1 s1(1) nn same_exitNodes [OF s1(2) rr(2)]] nn rr
      by (simp add: sameResult_def sameButNode_def)
  next
    case ELEMENT_NODE
    have "sameButNode (raiseNewlines (c\<lparr>offset := 0\<rparr>) nl) (raiseNewlines (c'\<lparr>offset := 0\<rparr>) nl)"
      using cc by (intro same_raiseNewlines sameButNode_update)
    from Visit.IH [OF g2 s2(1) nn same_exitNodes [OF s2(2) this]]
    show ?thesis
      unfolding nd' seek_loop_element [OF ELEMENT_NODE i g2]
        seek_loop_element [OF ELEMENT_NODE [unfolded ty] i' g2'] .
  next
    case OTHER_NODE
    from Visit.IH [OF g1 s1(1) Visit.prems(2) same_exitNodes [OF s1(2) cc]]
    show ?thesis
      unfolding nd' seek_loop_other [OF OTHER_NODE g1]
        seek_loop_other [OF OTHER_NODE [unfolded ty] g1'] .
  qed
qed

subsection \<open>The last node of an exhausted scan\<close>

lemma seekTextNode_stop:
  "(if forward then seekTextNodeForward c n reset else seekTextNodeBackward c n reset)
      = (False, c1) \<Longrightarrow> remainder c1 \<le> 0"
  by (auto simp: seekTextNodeForward_def seekTextNodeBackward_def Let_def
      split: if_splits prod.splits)

lemma lastVisited_simps:
  "lastVisited l [] = l"
  "nodeType n \<noteq> OTHER_NODE \<Longrightarrow> lastVisited l (n # ns) = lastVisited n ns"
  "nodeType n = OTHER_NODE \<Longrightarrow> lastVisited l (n # ns) = lastVisited l ns"
  by (simp_all add: lastVisited_def)

lemma seek_loop_lastVisited:
  "seek_loop forward c nd lastNode reset = Some c' \<Longrightarrow> 0 < remainder c' \<Longrightarrow>
   node c' = lastVisited lastNode (case nd of None \<Rightarrow> [] | Some n \<Rightarrow> traversal forward n)"
proof (induction c nd lastNode reset rule: seek_loop_induct [where forward = forward])
  case (Done c lastNode reset)
  then show ?case by (auto simp: seek_loop_None lastVisited_simps)
next
  case (Visit c n lastNode reset)
  obtain cont c1 where r: "(if forward then seekTextNodeForward c n reset
      else seekTextNodeBackward c n reset) = (cont, c1)"
    by fastforce
  obtain enterable nl where i: "getElementSeekInfo n = (enterable, nl)" by fastforce
  obtain next1 ex1 where g1: "getNextNode n forward False [] = (next1, ex1)" by fastforce
  obtain next2 ex2 where g2: "getNextNode n forward enterable [] = (next2, ex2)" by fastforce
  show ?case
  proof (cases "nodeType n")
    case TEXT_NODE
    have cont: cont
    proof (rule ccontr)
      assume "\<not> cont"
      with Visit.prems(1) r have "c' = c1\<lparr>node := n, resetOffset := reset\<rparr>"
        and "remainder c1 \<le> 0"
        unfolding seek_loop_text [OF TEXT_NODE r g1]
        by (auto dest: seekTextNode_stop)
      with Visit.prems(2) show False by simp
    qed
    have tr: "traversal forward n = n # (case next1 of None \<Rightarrow> [] | Some n' \<Rightarrow> traversal forward n')"
      by (subst traversal.simps) (simp add: TEXT_NODE g1)
    from Visit.prems(1) cont have "seek_loop forward (exitNodes c1 ex1) next1 n True = Some c'"
      unfolding seek_loop_text [OF TEXT_NODE r g1] by simp
    from Visit.IH [OF g1 this Visit.prems(2)] show ?thesis
      by (simp add: tr lastVisited_simps TEXT_NODE)
  next
    case ELEMENT_NODE
    have tr: "traversal forward n = n # (case next2 of None \<Rightarrow> [] | Some n' \<Rightarrow> traversal forward n')"
      by (subst traversal.simps) (simp add: ELEMENT_NODE i g2)
    from Visit.prems(1)
    have "seek_loop forward (exitNodes (raiseNewlines (c\<lparr>offset := 0\<rparr>) nl) ex2) next2 n True
        = Some c'"
      unfolding seek_loop_element [OF ELEMENT_NODE i g2] .
    from Visit.IH [OF g2 this Visit.prems(2)] show ?thesis
      by (simp add: tr lastVisited_simps ELEMENT_NODE)
  next
    case OTHER_NODE
    have tr: "traversal forward n = n # (case next1 of None \<Rightarrow> [] | Some n' \<Rightarrow> traversal forward n')"
      by (subst traversal.simps) (simp add: OTHER_NODE g1)
    from Visit.prems(1)
    have "seek_loop forward (exitNodes c ex1) next1 lastNode True = Some c'"
      unfolding seek_loop_other [OF OTHER_NODE g1] .
    from Visit.IH [OF g1 this Visit.prems(2)] show ?thesis
      by (simp add: tr lastVisited_simps OTHER_NODE)
  qed
qed

subsection \<open>The characters that a scan emits\<close>

lemma checkCharacterForward_unfold:
  "checkCharacterForward c char a =
     (if a = 1 then (False, c\<lparr>lineHasWhitespace := True\<rparr>)
      else if a = 2 \<or> a = 3
      then (if 0 < newlines c
            then (if remainder (flushForward c) \<le> 0
                  then (True, (flushForward c)\<lparr>offset := offset (flushForward c) - int (length char)\<rparr>)
                  else emitCharacterForward (flushForward c) char a)
            else emitCharacterForward c char a)
      else (False, c))"
  by (simp add: checkCharacterForward_def Let_def flushForward_def)

lemma checkCharacterBackward_unfold:
  "checkCharacterBackward c char a =
     (if a = 1 then (False, c\<lparr>lineHasWhitespace := True\<rparr>)
      else if a = 2 \<or> a = 3
      then (if 0 < newlines c
            then (if remainder (flushBackward c) \<le> 0
                  then (True, (flushBackward c)\<lparr>offset := offset (flushBackward c) + int (length char)\<rparr>)
                  else emitCharacterBackward (flushBackward c) char a)
            else emitCharacterBackward c char a)
      else (False, c))"
  by (simp add: checkCharacterBackward_def Let_def flushBackward_def)

lemma appendCharacter_took:
  assumes "0 < remainder c" and "ch \<noteq> []"
  shows "took True c [ch] (snd (appendCharacter c ch))
     \<and> (fst (appendCharacter c ch) \<longleftrightarrow> remainder c \<le> 1)
     \<and> layoutOf (snd (appendCharacter c ch)) = (newlines c, lineHasWhitespace c, True)
     \<and> offset (snd (appendCharacter c ch)) = offset c
     \<and> sameSettings c (snd (appendCharacter c ch))"
  using assms
  by (auto simp: appendCharacter_def Let_def took_def layoutOf_def sameSettings_def
      nat_le_iff)

lemma took_all:
  "int (length ps) \<le> remainder c \<Longrightarrow>
   took forward c ps c2 \<longleftrightarrow>
     content c2 = (if forward then content c @ concat ps else concat (rev ps) @ content c)
     \<and> remainder c2 = remainder c - int (length ps)"
  by (auto simp: took_def)

lemma emitCharacterForward_took:
  assumes "0 < remainder c" and "ch \<noteq> []" and "a = 2 \<or> a = 3"
  shows "took True c ((if lineHasWhitespace c \<and> a = 2 then [[0x20]] else []) @ [ch])
           (snd (emitCharacterForward c ch a))
     \<and> (fst (emitCharacterForward c ch a)
          \<longleftrightarrow> remainder c \<le> (if lineHasWhitespace c \<and> a = 2 then 2 else 1))
     \<and> (\<not> fst (emitCharacterForward c ch a) \<longrightarrow>
          layoutOf (snd (emitCharacterForward c ch a)) = (newlines c, False, True)
          \<and> offset (snd (emitCharacterForward c ch a)) = offset c)
     \<and> sameSettings c (snd (emitCharacterForward c ch a))"
proof (cases "lineHasWhitespace c \<and> a = 2")
  case True
  show ?thesis
  proof (cases "remainder c \<le> 1")
    case le: True
    with assms have "remainder c = 1" by simp
    with assms True show ?thesis
      by (auto simp: emitCharacterForward_def Let_def took_def sameSettings_def)
  next
    case False
    then have "int (length [[0x20 :: 16 word], ch]) \<le> remainder c" by simp
    note t = took_all [OF this]
    from False assms True show ?thesis
      by (auto simp: emitCharacterForward_def appendCharacter_def Let_def t
           sameSettings_def layoutOf_def)
  qed
next
  case False
  from assms have "int (length [ch]) \<le> remainder c" by simp
  note t = took_all [OF this]
  from False assms show ?thesis
    by (auto simp: emitCharacterForward_def appendCharacter_def Let_def t
         sameSettings_def layoutOf_def)
qed

lemma took_Nil:
  "took forward c [] c2 \<longleftrightarrow> content c2 = content c \<and> remainder c2 = remainder c"
  by (auto simp: took_def)

lemma took_append_stop:
  "took forward c ps1 c1 \<Longrightarrow> remainder c \<le> int (length ps1) \<Longrightarrow>
   took forward c (ps1 @ ps2) c1"
  by (auto simp: took_def)

lemma took_append:
  assumes "took forward c ps1 c1" and "int (length ps1) < remainder c"
    and "took forward c1 ps2 c2"
  shows "took forward c (ps1 @ ps2) c2"
proof -
  have r1: "remainder c1 = remainder c - int (length ps1)"
    and c1: "content c1 = (if forward then content c @ concat ps1 else concat (rev ps1) @ content c)"
    using assms(1,2) by (auto simp: took_def)
  have n: "nat (remainder c) - length ps1 = nat (remainder c1)"
    using assms(2) r1 by simp
  have t: "take (nat (remainder c)) (ps1 @ ps2) = ps1 @ take (nat (remainder c1)) ps2"
    using assms(2) n by simp
  show ?thesis
    using assms(3) r1 c1 unfolding took_def t by auto
qed

lemma concat_replicate_single: "concat (replicate n [x]) = replicate n x"
  by (induction n) simp_all

lemma flushForward_took:
  assumes "0 < remainder c" and "0 < newlines c"
  shows "took True c (if content c \<noteq> [] then replicate (nat (newlines c)) [0x0A] else [])
           (flushForward c)
     \<and> (remainder (flushForward c) \<le> 0 \<longleftrightarrow> content c \<noteq> [] \<and> remainder c \<le> newlines c)
     \<and> (0 < remainder (flushForward c) \<longrightarrow> newlines (flushForward c) = 0)
     \<and> \<not> lineHasWhitespace (flushForward c)
     \<and> offset (flushForward c) = offset c
     \<and> sameSettings c (flushForward c)
     \<and> (content (flushForward c) \<noteq> [] \<longleftrightarrow> content c \<noteq> [])"
proof (cases "content c = []")
  case True
  with assms show ?thesis
    by (simp add: flushForward_def took_Nil sameSettings_def)
next
  case ne: False
  show ?thesis
  proof (cases "remainder c \<le> newlines c")
    case le: True
    then have m: "min (remainder c) (newlines c) = remainder c" by simp
    have k: "min (nat (remainder c)) (nat (newlines c)) = nat (remainder c)"
      using le by simp
    from ne assms le show ?thesis
      by (simp add: flushForward_def took_def sameSettings_def m k concat_replicate_single)
  next
    case gt: False
    then have m: "min (remainder c) (newlines c) = newlines c" by simp
    have k: "min (nat (remainder c)) (nat (newlines c)) = nat (newlines c)"
      using gt by simp
    from ne assms gt show ?thesis
      by (simp add: flushForward_def took_def sameSettings_def m k concat_replicate_single)
  qed
qed

lemma sameSettings_refl [simp]: "sameSettings c c"
  by (simp add: sameSettings_def)

lemma sameSettings_trans: "sameSettings c c1 \<Longrightarrow> sameSettings c1 c2 \<Longrightarrow> sameSettings c c2"
  by (simp add: sameSettings_def)

lemma checkCharacterForward_took:
  assumes pos: "0 < remainder c" and ne: "ch \<noteq> []"
  shows "took True c (characterPieces a ch (layoutOf c)) (snd (checkCharacterForward c ch a))
     \<and> (fst (checkCharacterForward c ch a)
          \<longleftrightarrow> remainder c \<le> int (length (characterPieces a ch (layoutOf c))))
     \<and> (\<not> fst (checkCharacterForward c ch a) \<longrightarrow>
          layoutOf (snd (checkCharacterForward c ch a)) = afterCharacter a (layoutOf c)
          \<and> offset (snd (checkCharacterForward c ch a)) = offset c)
     \<and> sameSettings c (snd (checkCharacterForward c ch a))"
proof -
  consider (white) "a = 1" | (ignored) "a \<noteq> 1" "a \<noteq> 2" "a \<noteq> 3"
    | (plain) "a = 2 \<or> a = 3" "\<not> 0 < newlines c"
    | (pending) "a = 2 \<or> a = 3" "0 < newlines c"
    by blast
  then show ?thesis
  proof cases
    case white
    with pos show ?thesis
      by (simp add: checkCharacterForward_unfold layoutOf_def took_Nil sameSettings_def)
  next
    case ignored
    with pos show ?thesis
      by (simp add: checkCharacterForward_unfold layoutOf_def took_Nil)
  next
    case plain
    have u: "checkCharacterForward c ch a = emitCharacterForward c ch a"
      using plain by (auto simp: checkCharacterForward_unfold)
    have p: "characterPieces a ch (layoutOf c)
        = (if lineHasWhitespace c \<and> a = 2 then [[0x20]] else []) @ [ch]"
      using plain by (auto simp: layoutOf_def)
    have l: "afterCharacter a (layoutOf c) = (newlines c, False, True)"
      using plain by (auto simp: layoutOf_def)
    from emitCharacterForward_took [OF pos ne plain(1)] show ?thesis
      unfolding u p l by auto
  next
    case pending
    define f where "f = flushForward c"
    note fl = flushForward_took [OF pos pending(2), folded f_def]
    have l: "afterCharacter a (layoutOf c) = (0, False, True)"
      using pending by (auto simp: layoutOf_def)
    have p: "characterPieces a ch (layoutOf c)
        = (if content c \<noteq> [] then replicate (nat (newlines c)) [0x0A] else []) @ [ch]"
      using pending by (auto simp: layoutOf_def)
    show ?thesis
    proof (cases "remainder f \<le> 0")
      case True
      then have u: "checkCharacterForward c ch a = (True, f\<lparr>offset := offset f - int (length ch)\<rparr>)"
        using pending by (auto simp: checkCharacterForward_unfold f_def)
      from True fl have st: "content c \<noteq> []" and le: "remainder c \<le> newlines c" by auto
      have t: "took True c (replicate (nat (newlines c)) [0x0A] @ [ch]) f"
        by (rule took_append_stop) (use fl st le pending in auto)
      have "took True c (replicate (nat (newlines c)) [0x0A] @ [ch])
          (f\<lparr>offset := offset f - int (length ch)\<rparr>)"
        using t by (simp add: took_def)
      with fl st le pending show ?thesis
        unfolding u p by (auto simp: sameSettings_def)
    next
      case False
      then have posf: "0 < remainder f" by simp
      have u: "checkCharacterForward c ch a = emitCharacterForward f ch a"
        using pending False by (auto simp: checkCharacterForward_unfold f_def)
      note em = emitCharacterForward_took [OF posf ne pending(1)]
      have nw: "\<not> lineHasWhitespace f" and nl0: "newlines f = 0" using fl posf by auto
      have lt: "int (length (if content c \<noteq> [] then replicate (nat (newlines c)) [0x0A :: 16 word] else []))
          < remainder c"
        using fl False pending pos by auto
      have rf: "remainder f = remainder c
          - int (length (if content c \<noteq> [] then replicate (nat (newlines c)) [0x0A :: 16 word] else []))"
        using fl lt by (simp add: took_all)
      have t: "took True c (characterPieces a ch (layoutOf c)) (snd (emitCharacterForward f ch a))"
        unfolding p
        by (rule took_append [where ?c1.0 = f]) (use fl lt em nw in auto)
      have stop: "fst (emitCharacterForward f ch a)
          \<longleftrightarrow> remainder c \<le> int (length (characterPieces a ch (layoutOf c)))"
        using em nw rf unfolding p by auto
      from t stop em nw nl0 fl show ?thesis
        unfolding u l by (auto intro: sameSettings_trans)
    qed
  qed
qed

lemma characters_drop:
  assumes "i < length v"
  shows "characters (drop i v)
      = readCodePointsForward v (int i) (Suc 0)
        # characters (drop (i + length (readCodePointsForward v (int i) (Suc 0))) v)"
proof (cases "Suc i < length v")
  case True
  then have d: "drop i v = v ! i # v ! Suc i # drop (Suc (Suc i)) v"
    using assms by (simp add: Cons_nth_drop_Suc)
  have d1: "drop (Suc i) v = v ! Suc i # drop (Suc (Suc i)) v"
    using True by (simp add: Cons_nth_drop_Suc)
  show ?thesis using assms True by (simp add: readCodePointsForward_one d d1)
next
  case False
  with assms have "drop i v = [v ! i]"
    by (metis Cons_nth_drop_Suc drop_all not_less)
  with assms False show ?thesis by (simp add: readCodePointsForward_one)
qed

lemma took_cong:
  "content c1 = content c \<Longrightarrow> remainder c1 = remainder c \<Longrightarrow>
   took forward c1 ps c2 = took forward c ps c2"
  by (simp add: took_def)

lemma took_remainder:
  "took forward c ps c2 \<Longrightarrow> 0 < remainder c \<Longrightarrow>
   0 \<le> remainder c2 \<and> (0 < remainder c2 \<longleftrightarrow> int (length ps) < remainder c)"
  by (auto simp: took_def)

lemma seekTextNodeForward_loop_took:
  "0 < remainder c \<Longrightarrow> 0 \<le> offset c \<Longrightarrow>
   took True c (textPieces pn pw (characters (drop (nat (offset c)) v)) (layoutOf c))
     (seekTextNodeForward_loop v pn pw c)
   \<and> sameSettings c (seekTextNodeForward_loop v pn pw c)
   \<and> (0 < remainder (seekTextNodeForward_loop v pn pw c) \<longrightarrow>
        layoutOf (seekTextNodeForward_loop v pn pw c)
          = textLayout pn pw (characters (drop (nat (offset c)) v)) (layoutOf c))"
proof (induction v pn pw c rule: seekTextNodeForward_loop_induct)
  case (Round v pn pw c)
  define i where "i = nat (offset c)"
  have off: "offset c = int i" using Round.prems by (simp add: i_def)
  show ?case
  proof (cases "offset c < int (length v)")
    case False
    then have "drop i v = []" by (simp add: i_def)
    with False show ?thesis
      by (subst (1 2 3 4) seekTextNodeForward_loop_unfold)
         (simp add: i_def [symmetric] took_Nil)
  next
    case True
    then have lt: "i < length v" by (simp add: off)
    define ch where "ch = readCodePointsForward v (int i) (Suc 0)"
    define a where "a = getCharacterAttributes ch pn pw"
    define c1 where "c1 = c\<lparr>offset := offset c + int (length ch)\<rparr>"
    define rest where "rest = characters (drop (i + length ch) v)"
    have chs: "characters (drop i v) = ch # rest"
      unfolding ch_def rest_def by (rule characters_drop [OF lt])
    have ne: "ch \<noteq> []"
      using readCodePointsForward_length [OF lt] by (auto simp: ch_def)
    have r: "forwardRound v pn pw c = checkCharacterForward c1 ch a"
      by (simp add: forwardRound_def Let_def ch_def a_def c1_def off)
    have pos1: "0 < remainder c1" using Round.prems by (simp add: c1_def)
    have l1: "layoutOf c1 = layoutOf c" by (simp add: c1_def layoutOf_def)
    note ck = checkCharacterForward_took [OF pos1 ne, of a, folded r, unfolded l1]
    define c2 where "c2 = snd (forwardRound v pn pw c)"
    define ps where "ps = characterPieces a ch (layoutOf c)"
    have t1: "took True c ps c2"
      using ck took_cong [of c1 c True ps c2] by (simp add: c1_def c2_def ps_def)
    have s1: "sameSettings c c2"
      using ck by (simp add: c2_def sameSettings_def c1_def)
    have tp: "textPieces pn pw (characters (drop i v)) (layoutOf c)
        = ps @ textPieces pn pw rest (afterCharacter a (layoutOf c))"
      by (simp add: chs ps_def a_def)
    have tl: "textLayout pn pw (characters (drop i v)) (layoutOf c)
        = textLayout pn pw rest (afterCharacter a (layoutOf c))"
      by (simp add: chs a_def)
    show ?thesis
    proof (cases "fst (forwardRound v pn pw c)")
      case stop: True
      then have u: "seekTextNodeForward_loop v pn pw c = c2"
        using True by (subst seekTextNodeForward_loop_unfold) (simp add: c2_def)
      from stop ck have le: "remainder c \<le> int (length ps)"
        by (simp add: ps_def c1_def)
      have "took True c (ps @ textPieces pn pw rest (afterCharacter a (layoutOf c))) c2"
        by (rule took_append_stop [OF t1 le])
      moreover have "\<not> 0 < remainder c2"
        using took_remainder [OF t1] Round.prems le by auto
      ultimately show ?thesis
        unfolding u i_def [symmetric] tp using s1 by simp
    next
      case go: False
      then have u: "seekTextNodeForward_loop v pn pw c = seekTextNodeForward_loop v pn pw c2"
        using True by (subst seekTextNodeForward_loop_unfold) (simp add: c2_def)
      from go ck have gt: "int (length ps) < remainder c"
        and l2: "layoutOf c2 = afterCharacter a (layoutOf c)"
        and o2: "offset c2 = int (i + length ch)"
        by (simp_all add: ps_def c1_def c2_def off)
      have pos2: "0 < remainder c2" using took_remainder [OF t1] Round.prems gt by simp
      have o2': "0 \<le> offset c2" using o2 by simp
      have n2: "nat (offset c2) = i + length ch" using o2 by simp
      note ih = Round.IH [OF True go, folded c2_def, OF pos2 o2', unfolded n2 l2,
          folded rest_def]
      have "took True c (ps @ textPieces pn pw rest (afterCharacter a (layoutOf c)))
          (seekTextNodeForward_loop v pn pw c2)"
        by (rule took_append [OF t1 gt]) (use ih in simp)
      with ih s1 show ?thesis
        unfolding u i_def [symmetric] tp tl by (auto intro: sameSettings_trans)
    qed
  qed
qed

lemma charactersBackward_take:
  assumes "0 < i" and "i \<le> length v"
  shows "charactersBackward (take i v)
      = readCodePointsBackward v (int i - 1) (Suc 0)
        # charactersBackward (take (i - length (readCodePointsBackward v (int i - 1) (Suc 0))) v)"
proof -
  obtain j where i: "i = Suc j" using assms(1) by (cases i) auto
  have j: "j < length v" using assms(2) i by simp
  have idx: "int i - 1 = int j" using i by simp
  define ch where "ch = readCodePointsBackward v (int j) (Suc 0)"
  have ch: "ch = (if 0 < j \<and> isLowSurrogate (v ! j) \<and> isHighSurrogate (v ! (j - 1))
                  then [v ! (j - 1), v ! j] else [v ! j])"
    unfolding ch_def by (subst readCodePointsBackward_one) (use j in simp)
  have t1: "take (Suc j) v = take j v @ [v ! j]"
    using j by (simp add: take_Suc_conv_app_nth)
  have "charactersBackward (take (Suc j) v) = ch # charactersBackward (take (Suc j - length ch) v)"
  proof (cases j)
    case 0
    with j t1 show ?thesis
      by (simp add: ch charactersBackward_def)
  next
    case (Suc k)
    have k: "k < length v" using j Suc by simp
    have t2: "take (Suc k) v = take k v @ [v ! k]"
      using k by (simp add: take_Suc_conv_app_nth)
    have r: "rev (take (Suc (Suc k)) v) = v ! Suc k # v ! k # rev (take k v)"
      using t1 t2 Suc by simp
    have r1: "rev (take (Suc k) v) = v ! k # rev (take k v)"
      using t2 by simp
    show ?thesis
      unfolding Suc using r r1
      by (simp add: ch Suc charactersBackward_def)
  qed
  moreover have "int (Suc j) - 1 = int j" by simp
  ultimately show ?thesis unfolding i ch_def by (simp only:)
qed

lemma prependCharacter_took:
  assumes "0 < remainder c" and "ch \<noteq> []"
  shows "took False c [ch] (snd (prependCharacter c ch))
     \<and> (fst (prependCharacter c ch) \<longleftrightarrow> remainder c \<le> 1)
     \<and> layoutOf (snd (prependCharacter c ch)) = (newlines c, lineHasWhitespace c, True)
     \<and> offset (snd (prependCharacter c ch)) = offset c
     \<and> sameSettings c (snd (prependCharacter c ch))"
  using assms
  by (auto simp: prependCharacter_def Let_def took_def layoutOf_def sameSettings_def
      nat_le_iff)

lemma emitCharacterBackward_took:
  assumes "0 < remainder c" and "ch \<noteq> []" and "a = 2 \<or> a = 3"
  shows "took False c ((if lineHasWhitespace c \<and> a = 2 then [[0x20]] else []) @ [ch])
           (snd (emitCharacterBackward c ch a))
     \<and> (fst (emitCharacterBackward c ch a)
          \<longleftrightarrow> remainder c \<le> (if lineHasWhitespace c \<and> a = 2 then 2 else 1))
     \<and> (\<not> fst (emitCharacterBackward c ch a) \<longrightarrow>
          layoutOf (snd (emitCharacterBackward c ch a)) = (newlines c, False, True)
          \<and> offset (snd (emitCharacterBackward c ch a)) = offset c)
     \<and> sameSettings c (snd (emitCharacterBackward c ch a))"
proof (cases "lineHasWhitespace c \<and> a = 2")
  case True
  show ?thesis
  proof (cases "remainder c \<le> 1")
    case le: True
    with assms have "remainder c = 1" by simp
    with assms True show ?thesis
      by (auto simp: emitCharacterBackward_def Let_def took_def sameSettings_def)
  next
    case False
    then have "int (length [[0x20 :: 16 word], ch]) \<le> remainder c" by simp
    note t = took_all [OF this]
    from False assms True show ?thesis
      by (auto simp: emitCharacterBackward_def prependCharacter_def Let_def t
           sameSettings_def layoutOf_def)
  qed
next
  case False
  from assms have "int (length [ch]) \<le> remainder c" by simp
  note t = took_all [OF this]
  from False assms show ?thesis
    by (auto simp: emitCharacterBackward_def prependCharacter_def Let_def t
         sameSettings_def layoutOf_def)
qed

lemma flushBackward_took:
  assumes "0 < remainder c" and "0 < newlines c"
  shows "took False c (if content c \<noteq> [] then replicate (nat (newlines c)) [0x0A] else [])
           (flushBackward c)
     \<and> (remainder (flushBackward c) \<le> 0 \<longleftrightarrow> content c \<noteq> [] \<and> remainder c \<le> newlines c)
     \<and> (0 < remainder (flushBackward c) \<longrightarrow> newlines (flushBackward c) = 0)
     \<and> \<not> lineHasWhitespace (flushBackward c)
     \<and> offset (flushBackward c) = offset c
     \<and> sameSettings c (flushBackward c)
     \<and> (content (flushBackward c) \<noteq> [] \<longleftrightarrow> content c \<noteq> [])"
proof (cases "content c = []")
  case True
  with assms show ?thesis
    by (simp add: flushBackward_def took_Nil sameSettings_def)
next
  case ne: False
  show ?thesis
  proof (cases "remainder c \<le> newlines c")
    case le: True
    then have m: "min (remainder c) (newlines c) = remainder c" by simp
    have k: "min (nat (remainder c)) (nat (newlines c)) = nat (remainder c)"
      using le by simp
    from ne assms le show ?thesis
      by (simp add: flushBackward_def took_def sameSettings_def m k concat_replicate_single)
  next
    case gt: False
    then have m: "min (remainder c) (newlines c) = newlines c" by simp
    have k: "min (nat (remainder c)) (nat (newlines c)) = nat (newlines c)"
      using gt by simp
    from ne assms gt show ?thesis
      by (simp add: flushBackward_def took_def sameSettings_def m k concat_replicate_single)
  qed
qed

lemma checkCharacterBackward_took:
  assumes pos: "0 < remainder c" and ne: "ch \<noteq> []"
  shows "took False c (characterPieces a ch (layoutOf c)) (snd (checkCharacterBackward c ch a))
     \<and> (fst (checkCharacterBackward c ch a)
          \<longleftrightarrow> remainder c \<le> int (length (characterPieces a ch (layoutOf c))))
     \<and> (\<not> fst (checkCharacterBackward c ch a) \<longrightarrow>
          layoutOf (snd (checkCharacterBackward c ch a)) = afterCharacter a (layoutOf c)
          \<and> offset (snd (checkCharacterBackward c ch a)) = offset c)
     \<and> sameSettings c (snd (checkCharacterBackward c ch a))"
proof -
  consider (white) "a = 1" | (ignored) "a \<noteq> 1" "a \<noteq> 2" "a \<noteq> 3"
    | (plain) "a = 2 \<or> a = 3" "\<not> 0 < newlines c"
    | (pending) "a = 2 \<or> a = 3" "0 < newlines c"
    by blast
  then show ?thesis
  proof cases
    case white
    with pos show ?thesis
      by (simp add: checkCharacterBackward_unfold layoutOf_def took_Nil sameSettings_def)
  next
    case ignored
    with pos show ?thesis
      by (simp add: checkCharacterBackward_unfold layoutOf_def took_Nil)
  next
    case plain
    have u: "checkCharacterBackward c ch a = emitCharacterBackward c ch a"
      using plain by (auto simp: checkCharacterBackward_unfold)
    have p: "characterPieces a ch (layoutOf c)
        = (if lineHasWhitespace c \<and> a = 2 then [[0x20]] else []) @ [ch]"
      using plain by (auto simp: layoutOf_def)
    have l: "afterCharacter a (layoutOf c) = (newlines c, False, True)"
      using plain by (auto simp: layoutOf_def)
    from emitCharacterBackward_took [OF pos ne plain(1)] show ?thesis
      unfolding u p l by auto
  next
    case pending
    define f where "f = flushBackward c"
    note fl = flushBackward_took [OF pos pending(2), folded f_def]
    have l: "afterCharacter a (layoutOf c) = (0, False, True)"
      using pending by (auto simp: layoutOf_def)
    have p: "characterPieces a ch (layoutOf c)
        = (if content c \<noteq> [] then replicate (nat (newlines c)) [0x0A] else []) @ [ch]"
      using pending by (auto simp: layoutOf_def)
    show ?thesis
    proof (cases "remainder f \<le> 0")
      case True
      then have u: "checkCharacterBackward c ch a = (True, f\<lparr>offset := offset f + int (length ch)\<rparr>)"
        using pending by (auto simp: checkCharacterBackward_unfold f_def)
      from True fl have st: "content c \<noteq> []" and le: "remainder c \<le> newlines c" by auto
      have t: "took False c (replicate (nat (newlines c)) [0x0A] @ [ch]) f"
        by (rule took_append_stop) (use fl st le pending in auto)
      have "took False c (replicate (nat (newlines c)) [0x0A] @ [ch])
          (f\<lparr>offset := offset f + int (length ch)\<rparr>)"
        using t by (simp add: took_def)
      with fl st le pending show ?thesis
        unfolding u p by (auto simp: sameSettings_def)
    next
      case False
      then have posf: "0 < remainder f" by simp
      have u: "checkCharacterBackward c ch a = emitCharacterBackward f ch a"
        using pending False by (auto simp: checkCharacterBackward_unfold f_def)
      note em = emitCharacterBackward_took [OF posf ne pending(1)]
      have nw: "\<not> lineHasWhitespace f" and nl0: "newlines f = 0" using fl posf by auto
      have lt: "int (length (if content c \<noteq> [] then replicate (nat (newlines c)) [0x0A :: 16 word] else []))
          < remainder c"
        using fl False pending pos by auto
      have rf: "remainder f = remainder c
          - int (length (if content c \<noteq> [] then replicate (nat (newlines c)) [0x0A :: 16 word] else []))"
        using fl lt by (simp add: took_all)
      have t: "took False c (characterPieces a ch (layoutOf c)) (snd (emitCharacterBackward f ch a))"
        unfolding p
        by (rule took_append [where ?c1.0 = f]) (use fl lt em nw in auto)
      have stop: "fst (emitCharacterBackward f ch a)
          \<longleftrightarrow> remainder c \<le> int (length (characterPieces a ch (layoutOf c)))"
        using em nw rf unfolding p by auto
      from t stop em nw nl0 fl show ?thesis
        unfolding u l by (auto intro: sameSettings_trans)
    qed
  qed
qed

lemma readCodePointsBackward_length:
  assumes "0 < i" and "i \<le> length v"
  shows "readCodePointsBackward v (int i - 1) (Suc 0) \<noteq> []
     \<and> length (readCodePointsBackward v (int i - 1) (Suc 0)) \<le> i"
proof -
  obtain j where i: "i = Suc j" using assms(1) by (cases i) auto
  have j: "j < length v" using assms(2) i by simp
  have "readCodePointsBackward v (int j) (Suc 0)
      = (if 0 < j \<and> isLowSurrogate (v ! j) \<and> isHighSurrogate (v ! (j - 1))
         then [v ! (j - 1), v ! j] else [v ! j])"
    by (subst readCodePointsBackward_one) (use j in simp)
  moreover have "int (Suc j) - 1 = int j" by simp
  ultimately show ?thesis unfolding i by (auto simp only: list.simps list.size split: if_splits)
qed

lemma seekTextNodeBackward_loop_took:
  "0 < remainder c \<Longrightarrow> 0 \<le> offset c \<Longrightarrow> offset c \<le> int (length v) \<Longrightarrow>
   took False c (textPieces pn pw (charactersBackward (take (nat (offset c)) v)) (layoutOf c))
     (seekTextNodeBackward_loop v pn pw c)
   \<and> sameSettings c (seekTextNodeBackward_loop v pn pw c)
   \<and> (0 < remainder (seekTextNodeBackward_loop v pn pw c) \<longrightarrow>
        layoutOf (seekTextNodeBackward_loop v pn pw c)
          = textLayout pn pw (charactersBackward (take (nat (offset c)) v)) (layoutOf c))"
proof (induction v pn pw c rule: seekTextNodeBackward_loop_induct)
  case (Round v pn pw c)
  define i where "i = nat (offset c)"
  have off: "offset c = int i" using Round.prems by (simp add: i_def)
  show ?case
  proof (cases "0 < offset c")
    case False
    then have "charactersBackward (take i v) = []"
      by (simp add: i_def charactersBackward_def)
    with False show ?thesis
      by (subst (1 2 3 4) seekTextNodeBackward_loop_unfold)
         (simp add: i_def [symmetric] took_Nil)
  next
    case True
    then have lt: "0 < i" "i \<le> length v" using Round.prems by (simp_all add: off)
    define ch where "ch = readCodePointsBackward v (int i - 1) (Suc 0)"
    define a where "a = getCharacterAttributes ch pn pw"
    define c1 where "c1 = c\<lparr>offset := offset c - int (length ch)\<rparr>"
    define rest where "rest = charactersBackward (take (i - length ch) v)"
    have chs: "charactersBackward (take i v) = ch # rest"
      unfolding ch_def rest_def by (rule charactersBackward_take [OF lt])
    have ne: "ch \<noteq> []" and len: "length ch \<le> i"
      using readCodePointsBackward_length [OF lt] by (auto simp: ch_def)
    have r: "backwardRound v pn pw c = checkCharacterBackward c1 ch a"
      by (simp add: backwardRound_def Let_def ch_def a_def c1_def off)
    have pos1: "0 < remainder c1" using Round.prems by (simp add: c1_def)
    have l1: "layoutOf c1 = layoutOf c" by (simp add: c1_def layoutOf_def)
    note ck = checkCharacterBackward_took [OF pos1 ne, of a, folded r, unfolded l1]
    define c2 where "c2 = snd (backwardRound v pn pw c)"
    define ps where "ps = characterPieces a ch (layoutOf c)"
    have t1: "took False c ps c2"
      using ck took_cong [of c1 c False ps c2] by (simp add: c1_def c2_def ps_def)
    have s1: "sameSettings c c2"
      using ck by (simp add: c2_def sameSettings_def c1_def)
    have tp: "textPieces pn pw (charactersBackward (take i v)) (layoutOf c)
        = ps @ textPieces pn pw rest (afterCharacter a (layoutOf c))"
      by (simp add: chs ps_def a_def)
    have tl: "textLayout pn pw (charactersBackward (take i v)) (layoutOf c)
        = textLayout pn pw rest (afterCharacter a (layoutOf c))"
      by (simp add: chs a_def)
    show ?thesis
    proof (cases "fst (backwardRound v pn pw c)")
      case stop: True
      then have u: "seekTextNodeBackward_loop v pn pw c = c2"
        using True by (subst seekTextNodeBackward_loop_unfold) (simp add: c2_def)
      from stop ck have le: "remainder c \<le> int (length ps)"
        by (simp add: ps_def c1_def)
      have "took False c (ps @ textPieces pn pw rest (afterCharacter a (layoutOf c))) c2"
        by (rule took_append_stop [OF t1 le])
      moreover have "\<not> 0 < remainder c2"
        using took_remainder [OF t1] Round.prems le by auto
      ultimately show ?thesis
        unfolding u i_def [symmetric] tp using s1 by simp
    next
      case go: False
      then have u: "seekTextNodeBackward_loop v pn pw c = seekTextNodeBackward_loop v pn pw c2"
        using True by (subst seekTextNodeBackward_loop_unfold) (simp add: c2_def)
      from go ck have gt: "int (length ps) < remainder c"
        and l2: "layoutOf c2 = afterCharacter a (layoutOf c)"
        and o2: "offset c2 = int (i - length ch)"
        using len by (simp_all add: ps_def c1_def c2_def off)
      have pos2: "0 < remainder c2" using took_remainder [OF t1] Round.prems gt by simp
      have o2': "0 \<le> offset c2" using o2 by simp
      have n2: "nat (offset c2) = i - length ch" using o2 by simp
      have o2'': "offset c2 \<le> int (length v)" using o2 lt by simp
      note ih = Round.IH [OF True go, folded c2_def, OF pos2 o2' o2'', unfolded n2 l2,
          folded rest_def]
      have "took False c (ps @ textPieces pn pw rest (afterCharacter a (layoutOf c)))
          (seekTextNodeBackward_loop v pn pw c2)"
        by (rule took_append [OF t1 gt]) (use ih in simp)
      with ih s1 show ?thesis
        unfolding u i_def [symmetric] tp tl by (auto intro: sameSettings_trans)
    qed
  qed
qed

lemma layoutOf_raiseNewlines:
  "layoutOf (raiseNewlines c k) = raiseLayout (generateLayoutContent c) (layoutOf c) k"
  by (simp add: raiseNewlines_def layoutOf_def)

lemma layoutOf_exitNodes:
  "layoutOf (exitNodes c ex) = exitLayout (generateLayoutContent c) (layoutOf c) ex"
  by (induction c ex rule: exitNodes.induct) (simp_all add: layoutOf_raiseNewlines)

lemma sameSettings_getWhitespaceSettings:
  "sameSettings cfg c \<Longrightarrow> getWhitespaceSettings c n = getWhitespaceSettings cfg n"
  by (simp add: sameSettings_def getWhitespaceSettings_def)

lemma seekTextNode_took:
  assumes r: "(if forward then seekTextNodeForward c n reset
               else seekTextNodeBackward c n reset) = (cont, c1)"
    and pos: "0 < remainder c"
    and same: "sameSettings cfg c"
    and valid: "\<not> reset \<longrightarrow> 0 \<le> offset c \<and> offset c \<le> int (length (nodeValue n))"
    and is_text: "nodeType n = TEXT_NODE"
  shows "took forward c (nodePieces forward cfg n (if reset then None else Some (offset c)) (layoutOf c)) c1
     \<and> cont = (0 < remainder c1)
     \<and> sameSettings cfg c1
     \<and> (cont \<longrightarrow> layoutOf (exitNodes c1 (snd (getNextNode n forward False [])))
            = nodeLayout forward cfg n (if reset then None else Some (offset c)) (layoutOf c))"
proof -
  define v where "v = nodeValue n"
  define pn where "pn = fst (getWhitespaceSettings cfg n)"
  define pw where "pw = snd (getWhitespaceSettings cfg n)"
  have ws: "getWhitespaceSettings c n = (pn, pw)"
    using sameSettings_getWhitespaceSettings [OF same] by (simp add: pn_def pw_def)
  define c0 where "c0 = (if reset then c\<lparr>offset := (if forward then 0 else int (length v))\<rparr> else c)"
  have pos0: "0 < remainder c0" and lo: "0 \<le> offset c0" and hi: "offset c0 \<le> int (length v)"
    and l0: "layoutOf c0 = layoutOf c" and s0: "sameSettings c c0"
    using pos valid by (auto simp: c0_def v_def layoutOf_def sameSettings_def)
  have tc: "took f c0 ps c1 = took f c ps c1" for ps f
    by (rule took_cong) (simp_all add: c0_def)
  have gl: "generateLayoutContent c1 = generateLayoutContent cfg" if "sameSettings cfg c1"
    using that by (simp add: sameSettings_def)
  have nt: "\<not> (nodeType n = ELEMENT_NODE \<and> fst (getElementSeekInfo n))"
    using is_text by simp
  show ?thesis
  proof (cases forward)
    case True
    have c1: "c1 = seekTextNodeForward_loop v pn pw c0" and cont: "cont = (0 < remainder c1)"
      using r True by (auto simp: seekTextNodeForward_def Let_def ws v_def c0_def)
    have o: "nat (offset c0) = (case (if reset then None else Some (offset c)) of
        None \<Rightarrow> 0 | Some k \<Rightarrow> nat k)"
      using True by (simp add: c0_def)
    note lp = seekTextNodeForward_loop_took [OF pos0 lo, of pn pw v, folded c1, unfolded l0 tc o]
    have ss: "sameSettings cfg c1" using lp same s0 by (auto intro: sameSettings_trans)
    from lp ss show ?thesis
      using True cont is_text
      by (cases reset) (simp_all add: nodePieces_def nodeLayout_def nodeCharacters_def layoutOf_exitNodes
          gl pn_def pw_def v_def)
  next
    case False
    have c1: "c1 = seekTextNodeBackward_loop v pn pw c0" and cont: "cont = (0 < remainder c1)"
      using r False by (auto simp: seekTextNodeBackward_def Let_def ws v_def c0_def)
    have o: "nat (offset c0) = (case (if reset then None else Some (offset c)) of
        None \<Rightarrow> length (nodeValue n) | Some k \<Rightarrow> nat k)"
      using False by (simp add: c0_def v_def)
    note lp = seekTextNodeBackward_loop_took [OF pos0 lo hi, of pn pw, folded c1, unfolded l0 tc o]
    have ss: "sameSettings cfg c1" using lp same s0 by (auto intro: sameSettings_trans)
    from lp ss show ?thesis
      using False cont is_text
      by (cases reset) (simp_all add: nodePieces_def nodeLayout_def nodeCharacters_def layoutOf_exitNodes
          gl pn_def pw_def v_def)
  qed
qed

lemma sameSettings_fields:
  "sameSettings cfg c \<Longrightarrow> sameSettings cfg (exitNodes c ex)"
  "sameSettings cfg c \<Longrightarrow> sameSettings cfg (raiseNewlines c k)"
  "sameSettings cfg c \<Longrightarrow> sameSettings cfg (c\<lparr>offset := i\<rparr>)"
  by (simp_all add: sameSettings_def)

lemma layoutOf_offset: "layoutOf (c\<lparr>offset := i\<rparr>) = layoutOf c"
  by (simp add: layoutOf_def)

lemma seek_loop_took:
  "seek_loop forward c nd lastNode reset = Some c' \<Longrightarrow> 0 < remainder c \<Longrightarrow>
   sameSettings cfg c \<Longrightarrow>
   (\<forall>n. nd = Some n \<and> nodeType n = TEXT_NODE \<and> \<not> reset
      \<longrightarrow> 0 \<le> offset c \<and> offset c \<le> int (length (nodeValue n))) \<Longrightarrow>
   took forward c
     (scanNodes forward cfg (case nd of None \<Rightarrow> [] | Some n \<Rightarrow> traversal forward n)
        (if reset then None else Some (offset c)) (layoutOf c)) c'"
proof (induction c nd lastNode reset rule: seek_loop_induct [where forward = forward])
  case (Done c lastNode reset)
  then show ?case by (auto simp: seek_loop_None took_Nil)
next
  case (Visit c n lastNode reset)
  define off where "off = (if reset then None else Some (offset c))"
  obtain cont c1 where r: "(if forward then seekTextNodeForward c n reset
      else seekTextNodeBackward c n reset) = (cont, c1)"
    by fastforce
  obtain enterable nl where i: "getElementSeekInfo n = (enterable, nl)" by fastforce
  obtain next1 ex1 where g1: "getNextNode n forward False [] = (next1, ex1)" by fastforce
  obtain next2 ex2 where g2: "getNextNode n forward enterable [] = (next2, ex2)" by fastforce
  have gl: "generateLayoutContent c = generateLayoutContent cfg"
    using Visit.prems(3) by (simp add: sameSettings_def)
  show ?case
  proof (cases "nodeType n")
    case TEXT_NODE
    have valid: "\<not> reset \<longrightarrow> 0 \<le> offset c \<and> offset c \<le> int (length (nodeValue n))"
      using Visit.prems(4) TEXT_NODE by blast
    note tx = seekTextNode_took [OF r Visit.prems(2,3) valid TEXT_NODE, folded off_def,
        unfolded g1 snd_conv]
    have tr: "traversal forward n = n # (case next1 of None \<Rightarrow> [] | Some n' \<Rightarrow> traversal forward n')"
      by (subst traversal.simps) (simp add: TEXT_NODE g1)
    define rest where "rest = scanNodes forward cfg
        (case next1 of None \<Rightarrow> [] | Some n' \<Rightarrow> traversal forward n') None
        (nodeLayout forward cfg n off (layoutOf c))"
    have sc: "scanNodes forward cfg (traversal forward n) off (layoutOf c)
        = nodePieces forward cfg n off (layoutOf c) @ rest"
      by (simp add: tr rest_def)
    have t1: "took forward c (nodePieces forward cfg n off (layoutOf c)) c1" using tx by simp
    show ?thesis
    proof (cases cont)
      case False
      with Visit.prems(1) have c': "c' = c1\<lparr>node := n, resetOffset := reset\<rparr>"
        unfolding seek_loop_text [OF TEXT_NODE r g1] by simp
      from False tx have "\<not> 0 < remainder c1" by simp
      with took_remainder [OF t1 Visit.prems(2)]
      have le: "remainder c \<le> int (length (nodePieces forward cfg n off (layoutOf c)))"
        by simp
      have "took forward c (nodePieces forward cfg n off (layoutOf c) @ rest) c1"
        by (rule took_append_stop [OF t1 le])
      then show ?thesis
        unfolding off_def [symmetric] option.case sc c' by (simp add: took_def)
    next
      case True
      with Visit.prems(1) have run: "seek_loop forward (exitNodes c1 ex1) next1 n True = Some c'"
        unfolding seek_loop_text [OF TEXT_NODE r g1] by simp
      from True tx have pos1: "0 < remainder c1" by simp
      with took_remainder [OF t1 Visit.prems(2)]
      have gt: "int (length (nodePieces forward cfg n off (layoutOf c))) < remainder c"
        by simp
      have l1: "layoutOf (exitNodes c1 ex1) = nodeLayout forward cfg n off (layoutOf c)"
        using tx True by simp
      have "took forward (exitNodes c1 ex1) rest c'"
        using Visit.IH [OF g1 run] pos1 tx
        by (simp add: sameSettings_fields l1 rest_def)
      then have t2: "took forward c1 rest c'"
        by (simp add: took_def)
      have "took forward c (nodePieces forward cfg n off (layoutOf c) @ rest) c'"
        by (rule took_append [OF t1 gt t2])
      then show ?thesis
        unfolding off_def [symmetric] option.case sc .
    qed
  next
    case ELEMENT_NODE
    have tr: "traversal forward n = n # (case next2 of None \<Rightarrow> [] | Some n' \<Rightarrow> traversal forward n')"
      by (subst traversal.simps) (simp add: ELEMENT_NODE i g2)
    define c2 where "c2 = exitNodes (raiseNewlines (c\<lparr>offset := 0\<rparr>) nl) ex2"
    from Visit.prems(1) have run: "seek_loop forward c2 next2 n True = Some c'"
      unfolding seek_loop_element [OF ELEMENT_NODE i g2] c2_def .
    have l2: "layoutOf c2 = nodeLayout forward cfg n off (layoutOf c)"
      by (simp add: c2_def layoutOf_exitNodes layoutOf_raiseNewlines nodeLayout_def
          ELEMENT_NODE i g2 gl layoutOf_offset)
    have "took forward c2 (scanNodes forward cfg
        (case next2 of None \<Rightarrow> [] | Some n' \<Rightarrow> traversal forward n') None
        (nodeLayout forward cfg n off (layoutOf c))) c'"
    proof -
      have "0 < remainder c2" and "sameSettings cfg c2"
        using Visit.prems(2,3) by (simp_all add: c2_def sameSettings_fields)
      from Visit.IH [OF g2 run this] show ?thesis by (simp add: l2)
    qed
    then show ?thesis
      unfolding off_def [symmetric] option.case
      by (simp add: tr nodePieces_def ELEMENT_NODE took_def c2_def)
  next
    case OTHER_NODE
    have tr: "traversal forward n = n # (case next1 of None \<Rightarrow> [] | Some n' \<Rightarrow> traversal forward n')"
      by (subst traversal.simps) (simp add: OTHER_NODE g1)
    define c2 where "c2 = exitNodes c ex1"
    from Visit.prems(1) have run: "seek_loop forward c2 next1 lastNode True = Some c'"
      unfolding seek_loop_other [OF OTHER_NODE g1] c2_def .
    have l2: "layoutOf c2 = nodeLayout forward cfg n off (layoutOf c)"
      by (simp add: c2_def layoutOf_exitNodes nodeLayout_def OTHER_NODE g1 gl)
    have "took forward c2 (scanNodes forward cfg
        (case next1 of None \<Rightarrow> [] | Some n' \<Rightarrow> traversal forward n') None
        (nodeLayout forward cfg n off (layoutOf c))) c'"
    proof -
      have "0 < remainder c2" and "sameSettings cfg c2"
        using Visit.prems(2,3) by (simp_all add: c2_def sameSettings_fields)
      from Visit.IH [OF g1 run this] show ?thesis by (simp add: l2)
    qed
    then show ?thesis
      unfolding off_def [symmetric] option.case
      by (simp add: tr nodePieces_def OTHER_NODE took_def c2_def)
  qed
qed

lemma characters_oneCharacter: "list_all oneCharacter (characters s)"
  by (induction s rule: characters.induct) (simp_all add: oneCharacter_def)

lemma charactersFromEnd_oneCharacter: "list_all oneCharacter (charactersFromEnd s)"
  by (induction s rule: charactersFromEnd.induct) (simp_all add: oneCharacter_def)

lemma characterPieces_oneCharacter:
  "oneCharacter ch \<Longrightarrow> list_all oneCharacter (characterPieces a ch s)"
  by (cases s) (auto simp: oneCharacter_def list_all_iff)

lemma textPieces_oneCharacter:
  "list_all oneCharacter chs \<Longrightarrow> list_all oneCharacter (textPieces pn pw chs s)"
  by (induction chs arbitrary: s) (simp_all add: characterPieces_oneCharacter)

lemma nodePieces_oneCharacter: "list_all oneCharacter (nodePieces forward cfg n off s)"
  by (simp add: nodePieces_def nodeCharacters_def textPieces_oneCharacter
      characters_oneCharacter charactersFromEnd_oneCharacter charactersBackward_def)

lemma scanNodes_oneCharacter: "list_all oneCharacter (scanNodes forward cfg ns off s)"
  by (induction ns arbitrary: off s) (simp_all add: nodePieces_oneCharacter)

lemma visibleCharacters_oneCharacter: "list_all oneCharacter (visibleCharacters forward c)"
  by (simp add: visibleCharacters_def scanNodes_oneCharacter)

lemma seek_took:
  assumes valid: "validOffset c" and len: "len \<noteq> 0"
  shows "\<exists>c'. seek c len = Some c'
     \<and> took (0 \<le> len) (c\<lparr>remainder := \<bar>len\<bar>\<rparr>) (visibleCharacters (0 \<le> len) c) c'
     \<and> (0 < remainder c' \<longrightarrow> node c' = lastVisited (node c) (traversal (0 \<le> len) (node c)))"
proof -
  define fwd where "fwd = (0 \<le> len)"
  define c1 where "c1 = c\<lparr>remainder := \<bar>len\<bar>\<rparr>"
  have seek_eq: "seek c len = seek_loop fwd c1 (Some (node c)) (node c) (resetOffset c)"
    using len by (auto simp: seek_def Let_def fwd_def c1_def abs_if)
  obtain c' where c': "seek c len = Some c'"
    using seek_loop_returns [of fwd c1 "Some (node c)" "node c" "resetOffset c"] seek_eq
    by auto
  have run: "seek_loop fwd c1 (Some (node c)) (node c) (resetOffset c) = Some c'"
    using c' seek_eq by simp
  have pos: "0 < remainder c1" using len by (simp add: c1_def)
  have same: "sameSettings c c1" by (simp add: c1_def sameSettings_def)
  have v: "\<forall>n. Some (node c) = Some n \<and> nodeType n = TEXT_NODE \<and> \<not> resetOffset c
      \<longrightarrow> 0 \<le> offset c1 \<and> offset c1 \<le> int (length (nodeValue n))"
    using valid by (auto simp: validOffset_def c1_def)
  have l: "layoutOf c1 = layoutOf c" and o: "offset c1 = offset c"
    by (simp_all add: c1_def layoutOf_def)
  from seek_loop_took [OF run pos same v, unfolded l o]
  have "took fwd c1 (visibleCharacters fwd c) c'"
    by (simp add: visibleCharacters_def)
  moreover have "0 < remainder c' \<longrightarrow> node c' = lastVisited (node c) (traversal fwd (node c))"
    using seek_loop_lastVisited [OF run] by simp
  ultimately show ?thesis
    using c' unfolding fwd_def c1_def by blast
qed

lemma characters_hd:
  "ch \<in> set (characters s) \<Longrightarrow> \<exists>u us. ch = u # us \<and> u \<in> set s"
  by (induction s rule: characters.induct) (auto split: if_splits)

lemma charactersFromEnd_hd:
  "ch \<in> set (charactersFromEnd s) \<Longrightarrow> \<exists>u us. ch = u # us \<and> u \<in> set s"
  by (induction s rule: charactersFromEnd.induct) (auto split: if_splits)

lemma textPieces_significant:
  "\<forall>ch \<in> set chs. getCharacterAttributes ch pn pw = 2 \<Longrightarrow>
   textPieces pn pw chs (0, False, st) = chs"
  by (induction chs arbitrary: st) simp_all

lemma nodePieces_ordinary:
  assumes "nodeType t = TEXT_NODE" and "list_all ordinary (nodeValue t)"
  shows "nodePieces forward cfg t off (0, False, False) = nodeCharacters forward t off"
proof -
  have "getCharacterAttributes ch pn pw = 2" if "ch \<in> set (nodeCharacters forward t off)"
    for ch pn pw
  proof -
    from that obtain u us where ch: "ch = u # us" and "u \<in> set (nodeValue t)"
      by (auto simp: nodeCharacters_def charactersBackward_def split: if_splits
          dest!: characters_hd charactersFromEnd_hd in_set_dropD in_set_takeD)
    with assms(2) have "ordinary u" by (simp add: list_all_iff)
    then show ?thesis unfolding ch by (rule getCharacterAttributes_ordinary)
  qed
  then show ?thesis
    using assms(1) by (simp add: nodePieces_def textPieces_significant)
qed

subsection \<open>The claims\<close>

text \<open>
  C2, as the claim states it, fails: on the document that is the single text
  \<open>a   b\<close>, a cursor at offset 0 with default white space handling and \<open>seek(5)\<close> do
  not end with content \<open>a b\<close> and remainder 0.
\<close>

theorem C2_remainder_zero_counterexample:
  "map_option (\<lambda>c. (content c, remainder c))
     (seek (DOMTextScanner (document spacedText) 0 False True) 5) \<noteq> Some (utf16 ''a b'', 0)"
  by code_simp

text \<open>
  C2, amended: on that document \<open>seek(5)\<close> returns with content exactly \<open>a b\<close> and
  remainder exactly 2, the five characters asked for less the three emitted, the offset
  at the end of the text; \<open>seek(3)\<close> returns with the same content and remainder 0.
\<close>

theorem C2_collapsed_whitespace_remainder:
  "map_option (\<lambda>c. (content c, remainder c, offset c))
     (seek (DOMTextScanner (document spacedText) 0 False True) 5) = Some (utf16 ''a b'', 2, 5)
   \<and> map_option (\<lambda>c. (content c, remainder c, offset c))
     (seek (DOMTextScanner (document spacedText) 0 False True) 3) = Some (utf16 ''a b'', 0, 5)"
  by code_simp

text \<open>
  C3, as the claim states it, fails: a visible, in-flow element whose display value is
  \<open>ruby\<close> gets 0 newlines, and one whose display value is \<open>ruby-text\<close> gets 1.
\<close>

theorem C3_ruby_display_counterexample:
  "snd (getElementSeekInfo (displayed ''ruby'')) = 0
   \<and> snd (getElementSeekInfo (displayed ''ruby-text'')) = 1"
  by code_simp

text \<open>
  C3, amended: for every element whose tag is none of head, rt, script, style and br and
  whose computed style is visible, the seek info assigns 2 newlines when the position is
  absolute, fixed or sticky; otherwise 1 newline exactly when the display value breaks
  the layout flow, which is when the keyword of its outer display type is block, flex,
  grid, list or table, or is ruby followed by a hyphenated part; otherwise 0 newlines,
  as for inline and for the plain value ruby.
\<close>

theorem C3_element_newlines:
  assumes "toUpperCase (nodeName e) \<notin> {''HEAD'', ''RT'', ''SCRIPT'', ''STYLE'', ''BR''}"
    and "getComputedStyle e = Some st"
    and "display st \<noteq> ''none''" and "isStyleVisible st"
  shows "snd (getElementSeekInfo e) =
     (if position st \<in> {''absolute'', ''fixed'', ''sticky''} then 2
      else if breaksLayoutFlow (display st) then 1 else 0)"
  using assms by (auto simp: getElementSeekInfo_def Let_def doesCSSDisplayChangeLayout_eq)

theorem C3_element_newlines_witness:
  "toUpperCase (nodeName (displayed ''list-item'')) \<notin> {''HEAD'', ''RT'', ''SCRIPT'', ''STYLE'', ''BR''}
   \<and> getComputedStyle (displayed ''list-item'') = Some (inlineStyle\<lparr>display := ''list-item''\<rparr>)
   \<and> display (inlineStyle\<lparr>display := ''list-item''\<rparr>) \<noteq> ''none''
   \<and> isStyleVisible (inlineStyle\<lparr>display := ''list-item''\<rparr>)
   \<and> snd (getElementSeekInfo (displayed ''list-item'')) = 1"
proof -
  have tag: "toUpperCase (nodeName (displayed ''list-item''))
      \<notin> {''HEAD'', ''RT'', ''SCRIPT'', ''STYLE'', ''BR''}"
    by code_simp
  have st: "getComputedStyle (displayed ''list-item'') = Some (inlineStyle\<lparr>display := ''list-item''\<rparr>)"
    by (simp add: displayed_def document_def getComputedStyle_def)
  have disp: "display (inlineStyle\<lparr>display := ''list-item''\<rparr>) \<noteq> ''none''"
    by simp
  have vis: "isStyleVisible (inlineStyle\<lparr>display := ''list-item''\<rparr>)"
    by code_simp
  have flow: "breaksLayoutFlow ''list-item''"
    by code_simp
  have pos: "position (inlineStyle\<lparr>display := ''list-item''\<rparr>) = ''static''"
    by (simp add: inlineStyle_def)
  from C3_element_newlines [OF tag st disp vis] flow pos
  have "snd (getElementSeekInfo (displayed ''list-item'')) = 1"
    by simp
  with tag st disp vis show ?thesis by blast
qed

text \<open>
  C4: in a document with two sibling block containers holding \<open>foo\<close> and \<open>bar\<close>, scanning
  forward from the start of \<open>foo\<close> across the boundary puts exactly one newline between
  the two texts when \<open>generateLayoutContent\<close> is true, and none when it is false.
\<close>

theorem C4_block_boundary_newline:
  "map_option (\<lambda>c. (content c, remainder c))
     (seek (DOMTextScanner (nodeAt twoBlocks [0, 0]) 0 False True) 7)
     = Some (utf16 ''foo'' @ [0x0A] @ utf16 ''bar'', 0)
   \<and> map_option (\<lambda>c. (content c, remainder c))
     (seek (DOMTextScanner (nodeAt twoBlocks [0, 0]) 0 False False) 6)
     = Some (utf16 ''foobar'', 0)
   \<and> map_option (\<lambda>c. (content c, remainder c))
     (seek (DOMTextScanner (nodeAt twoBlocks [0, 0]) 0 False False) 7)
     = Some (utf16 ''foobar'', 1)"
  by code_simp

text \<open>
  C5: the classification of a character by its first code unit. Tab, form feed,
  carriage return and space are collapsible white space (1) unless white space is
  preserved, and significant (2) then; line feed is collapsible white space (1) unless
  newlines are preserved, and a preserved newline (3) then; zero-width space and
  zero-width non-joiner are ignored (0); every other character is significant (2).
\<close>

theorem C5_character_classification:
  "(u \<in> {0x09, 0x0C, 0x0D, 0x20} \<longrightarrow>
      getCharacterAttributes (u # us) preserveNewlines preserveWhitespace
        = (if preserveWhitespace then 2 else 1))
   \<and> (u = 0x0A \<longrightarrow>
      getCharacterAttributes (u # us) preserveNewlines preserveWhitespace
        = (if preserveNewlines then 3 else 1))
   \<and> (u \<in> {0x200B, 0x200C} \<longrightarrow>
      getCharacterAttributes (u # us) preserveNewlines preserveWhitespace = 0)
   \<and> (u \<notin> {0x09, 0x0C, 0x0D, 0x20, 0x0A, 0x200B, 0x200C} \<longrightarrow>
      getCharacterAttributes (u # us) preserveNewlines preserveWhitespace = 2)"
  by (auto simp: getCharacterAttributes_def)

theorem C5_character_classification_witness:
  "getCharacterAttributes [0x20] False False = 1
   \<and> getCharacterAttributes [0x0A] True False = 3
   \<and> getCharacterAttributes [0x200B] False False = 0
   \<and> getCharacterAttributes [0x3042] False False = 2"
  using C5_character_classification [of "0x20" "[]" False False]
    C5_character_classification [of "0x0A" "[]" True False]
    C5_character_classification [of "0x200B" "[]" False False]
    C5_character_classification [of "0x3042" "[]" False False]
  by simp

text \<open>
  C7: \<open>seek(0)\<close> returns at once with the remainder set to 0; the node, the offset, the
  content and every other field of the cursor are as they were.
\<close>

theorem C7_seek_zero_noop: "seek c 0 = Some (c\<lparr>remainder := 0\<rparr>)"
  by (simp add: seek_def)

text \<open>
  C9: \<open>seek\<close> returns for every cursor, on every document and for every length. Each
  step of \<open>getNextNode\<close> leads to a node with strictly fewer nodes still ahead, so no node
  is visited twice and the loop ends, at the latest when the tree is exhausted.
\<close>

theorem C9_seek_terminates:
  "(\<exists>c'. seek c len = Some c')
   \<and> (\<forall>n visitChildren ex n' ex'.
        getNextNode n forward visitChildren ex = (Some n', ex') \<longrightarrow>
        remaining forward n' < remaining forward n)"
  by (simp add: seek_def Let_def seek_loop_returns getNextNode_remaining)

theorem C9_seek_terminates_witness:
  "(\<exists>c'. seek (DOMTextScanner (nodeAt twoBlocks [0, 0]) 0 False True) 7 = Some c')
   \<and> remaining True (nodeAt twoBlocks [1]) < remaining True (nodeAt twoBlocks [0, 0])"
proof -
  have g: "getNextNode (nodeAt twoBlocks [0, 0]) True False []
      = (Some (nodeAt twoBlocks [1]), [nodeAt twoBlocks [0, 0], nodeAt twoBlocks [0]])"
    by code_simp
  from C9_seek_terminates [of "DOMTextScanner (nodeAt twoBlocks [0, 0]) 0 False True" 7 True] g
  show ?thesis by blast
qed

text \<open>
  C10: a cursor constructed at a text node that does not sit in an rt under a ruby, at an
  offset within the text, reads the characters of that text node into the content,
  whatever elements enclose it (script, style, a form control, an invisible element):
  \<open>seek\<close> returns, and the content it returns begins (scanning forward) or ends
  (scanning backward) with the first characters that the text node gives from the
  offset, as many as the length asks for. When the text node gives as many as that, the
  content is exactly these, the remainder is 0 and the node is the text node. A text of
  ordinary characters gives its characters themselves.
\<close>

theorem C10_start_text_scanned:
  assumes is_text: "nodeType t = TEXT_NODE"
    and ruby: "getParentRubyElement t = None"
    and off: "0 \<le> off \<and> off \<le> int (length (nodeValue t))"
  shows "\<exists>c'. seek (DOMTextScanner t off fp gl) len = Some c'
     \<and> (if 0 \<le> len
         then prefix (concat (take (nat \<bar>len\<bar>)
                  (nodePieces (0 \<le> len) (DOMTextScanner t off fp gl) t (Some off)
                     (0, False, False))))
                (content c')
         else suffix (concat (rev (take (nat \<bar>len\<bar>)
                  (nodePieces (0 \<le> len) (DOMTextScanner t off fp gl) t (Some off)
                     (0, False, False)))))
                (content c'))
     \<and> (\<bar>len\<bar> \<le> int (length (nodePieces (0 \<le> len) (DOMTextScanner t off fp gl) t (Some off)
                                   (0, False, False)))
          \<longrightarrow> remainder c' = 0 \<and> node c' = t
              \<and> content c' =
                  (if 0 \<le> len
                   then concat (take (nat \<bar>len\<bar>)
                          (nodePieces (0 \<le> len) (DOMTextScanner t off fp gl) t (Some off)
                             (0, False, False)))
                   else concat (rev (take (nat \<bar>len\<bar>)
                          (nodePieces (0 \<le> len) (DOMTextScanner t off fp gl) t (Some off)
                             (0, False, False))))))
     \<and> (list_all ordinary (nodeValue t) \<longrightarrow>
          nodePieces (0 \<le> len) (DOMTextScanner t off fp gl) t (Some off) (0, False, False)
            = nodeCharacters (0 \<le> len) t (Some off))"
proof -
  define c0 where "c0 = DOMTextScanner t off fp gl"
  define fwd where "fwd = (0 \<le> len)"
  define ps where "ps = nodePieces fwd c0 t (Some off) (0, False, False)"
  have plain: "node c0 = t" "resetOffset c0 = False" "offset c0 = off" "content c0 = []"
    "layoutOf c0 = (0, False, False)"
    using ruby by (simp_all add: c0_def DOMTextScanner_plain layoutOf_def)
  have ord: "list_all ordinary (nodeValue t) \<longrightarrow> ps = nodeCharacters fwd t (Some off)"
    unfolding ps_def using nodePieces_ordinary [OF is_text] by blast
  have main: "\<exists>c'. seek c0 len = Some c'
     \<and> (if fwd then prefix (concat (take (nat \<bar>len\<bar>) ps)) (content c')
         else suffix (concat (rev (take (nat \<bar>len\<bar>) ps))) (content c'))
     \<and> (\<bar>len\<bar> \<le> int (length ps) \<longrightarrow> remainder c' = 0 \<and> node c' = t
          \<and> content c' = (if fwd then concat (take (nat \<bar>len\<bar>) ps)
                           else concat (rev (take (nat \<bar>len\<bar>) ps))))"
  proof (cases "len = 0")
    case True
    then show ?thesis by (simp add: seek_def plain)
  next
    case False
    define cs where "cs = c0\<lparr>remainder := \<bar>len\<bar>\<rparr>"
    have pos: "0 < remainder cs" using False by (simp add: cs_def)
    have same: "sameSettings c0 cs" by (simp add: cs_def sameSettings_def)
    have valid: "\<not> False \<longrightarrow> 0 \<le> offset cs \<and> offset cs \<le> int (length (nodeValue t))"
      using off by (simp add: cs_def plain)
    have lcs: "layoutOf cs = (0, False, False)" "offset cs = off" "content cs = []"
      "remainder cs = \<bar>len\<bar>"
      using plain by (simp_all add: cs_def layoutOf_def)
    obtain cont c1 where r: "(if fwd then seekTextNodeForward cs t False
        else seekTextNodeBackward cs t False) = (cont, c1)"
      by fastforce
    obtain nxt ex where g: "getNextNode t fwd False [] = (nxt, ex)" by fastforce
    have seek_eq: "seek c0 len = seek_loop fwd cs (Some t) t False"
      using False by (auto simp: seek_def Let_def fwd_def cs_def plain abs_if)
    note unfold = seek_loop_text [OF is_text r g, of t]
    obtain c' where c': "seek c0 len = Some c'"
      using seek_loop_returns [of fwd cs "Some t" t False] seek_eq by auto
    from seekTextNode_took [OF r pos same valid is_text]
    have t1: "took fwd cs ps c1" and cont: "cont = (0 < remainder c1)"
      by (simp_all add: lcs ps_def)
    have co1: "content c1 = (if fwd then concat (take (nat \<bar>len\<bar>) ps)
        else concat (rev (take (nat \<bar>len\<bar>) ps)))"
      using t1 by (simp add: took_def lcs)
    have grow: "if fwd then prefix (content c1) (content c') else suffix (content c1) (content c')"
    proof (cases cont)
      case False
      with c' seek_eq unfold show ?thesis by auto
    next
      case True
      with c' seek_eq unfold have "seek_loop fwd (exitNodes c1 ex) nxt t True = Some c'"
        by simp
      then show ?thesis
        using seek_loop_content_forward [of "exitNodes c1 ex" nxt t True c']
          seek_loop_content_backward [of "exitNodes c1 ex" nxt t True c']
        by (cases fwd) auto
    qed
    have stop: "remainder c' = 0 \<and> node c' = t
        \<and> content c' = (if fwd then concat (take (nat \<bar>len\<bar>) ps)
                         else concat (rev (take (nat \<bar>len\<bar>) ps)))"
      if "\<bar>len\<bar> \<le> int (length ps)"
    proof -
      from took_remainder [OF t1 pos] that have "remainder c1 = 0" by (simp add: lcs)
      with cont have "\<not> cont" by simp
      with c' seek_eq unfold have "c' = c1\<lparr>node := t, resetOffset := False\<rparr>" by simp
      with \<open>remainder c1 = 0\<close> co1 show ?thesis by simp
    qed
    show ?thesis
      using c' grow stop co1 by (cases fwd) auto
  qed
  show ?thesis
    using main ord unfolding c0_def [symmetric] ps_def [symmetric] fwd_def [symmetric]
    by blast
qed

theorem C10_start_text_scanned_witness:
  "nodeType (nodeAt scriptText [0, 0]) = TEXT_NODE
   \<and> getParentRubyElement (nodeAt scriptText [0, 0]) = None
   \<and> \<not> fst (getElementSeekInfo (nodeAt scriptText [0]))
   \<and> map_option (\<lambda>c. (content c, remainder c, node c))
        (seek (DOMTextScanner (nodeAt scriptText [0, 0]) 0 False True) 3)
      = Some (utf16 ''abc'', 0, nodeAt scriptText [0, 0])
   \<and> map_option (\<lambda>c. (content c, remainder c, node c))
        (seek (DOMTextScanner (nodeAt scriptText [0, 0]) 3 False True) (- 2))
      = Some (utf16 ''bc'', 0, nodeAt scriptText [0, 0])
   \<and> \<not> fst (getElementSeekInfo (nodeAt formText [0]))
   \<and> map_option (\<lambda>c. (content c, remainder c, node c))
        (seek (DOMTextScanner (nodeAt formText [0, 0]) 0 False True) 3)
      = Some (utf16 ''a b'', 0, nodeAt formText [0, 0])"
proof -
  let ?t = "nodeAt scriptText [0, 0]"
  let ?u = "nodeAt formText [0, 0]"
  have h1: "nodeType ?t = TEXT_NODE" by code_simp
  have h2: "getParentRubyElement ?t = None" by code_simp
  have h3: "0 \<le> (0::int) \<and> 0 \<le> int (length (nodeValue ?t))" by simp
  have h4: "0 \<le> (3::int) \<and> 3 \<le> int (length (nodeValue ?t))" by code_simp
  have k1: "nodeType ?u = TEXT_NODE" by code_simp
  have k2: "getParentRubyElement ?u = None" by code_simp
  have k3: "0 \<le> (0::int) \<and> 0 \<le> int (length (nodeValue ?u))" by simp
  have e1: "\<not> fst (getElementSeekInfo (nodeAt scriptText [0]))" by code_simp
  have e2: "\<not> fst (getElementSeekInfo (nodeAt formText [0]))" by code_simp
  have p1: "nodePieces True (DOMTextScanner ?t 0 False True) ?t (Some 0) (0, False, False)
      = [utf16 ''a'', utf16 ''b'', utf16 ''c'']"
    by code_simp
  have p2: "nodePieces False (DOMTextScanner ?t 3 False True) ?t (Some 3) (0, False, False)
      = [utf16 ''c'', utf16 ''b'', utf16 ''a'']"
    by code_simp
  have p3: "nodePieces True (DOMTextScanner ?u 0 False True) ?u (Some 0) (0, False, False)
      = [utf16 ''a'', utf16 '' '', utf16 ''b'']"
    by code_simp
  from C10_start_text_scanned [OF h1 h2 h3, of False True 3]
  have a: "map_option (\<lambda>c. (content c, remainder c, node c))
        (seek (DOMTextScanner ?t 0 False True) 3) = Some (utf16 ''abc'', 0, ?t)"
    by (auto simp: p1 utf16_def)
  from C10_start_text_scanned [OF h1 h2 h4, of False True "- 2"]
  have b: "map_option (\<lambda>c. (content c, remainder c, node c))
        (seek (DOMTextScanner ?t 3 False True) (- 2)) = Some (utf16 ''bc'', 0, ?t)"
    by (auto simp: p2 utf16_def)
  from C10_start_text_scanned [OF k1 k2 k3, of False True 3]
  have c: "map_option (\<lambda>c. (content c, remainder c, node c))
        (seek (DOMTextScanner ?u 0 False True) 3) = Some (utf16 ''a b'', 0, ?u)"
    by (auto simp: p3 utf16_def)
  from h1 h2 e1 e2 a b c show ?thesis by blast
qed

text \<open>
  C6, as the claim states it, fails: on the document that is the single text \<open>ab\<close>, all
  of whose characters are ordinary, \<open>seek(5)\<close> from offset 0 leaves the remainder 3.
\<close>

theorem C6_round_trip_counterexample:
  "list_all ordinary (utf16 ''ab'')
   \<and> map_option remainder (seek (DOMTextScanner (document shortText) 0 False True) 5) = Some 3"
  by code_simp

text \<open>
  C6, amended: let a cursor be constructed at a text node of ordinary characters that
  does not sit in an rt under a ruby, at an offset that is a code point boundary, and let
  \<open>n\<close> be at most the number of code points from that offset to the end of the text.
  Then \<open>seek(n)\<close> followed by \<open>seek(-n)\<close> leaves the remainder 0 after both calls, and
  the cursor is at the text node and the offset it started from.
\<close>

theorem C6_round_trip:
  assumes is_text: "nodeType t = TEXT_NODE"
    and ruby: "getParentRubyElement t = None"
    and ord: "list_all ordinary (nodeValue t)"
    and bd: "codePointBoundary (nodeValue t) i"
    and n: "n \<le> codePoints (drop i (nodeValue t))"
  shows "\<exists>c1 c2. seek (DOMTextScanner t (int i) fp gl) (int n) = Some c1 \<and> remainder c1 = 0
     \<and> seek c1 (- int n) = Some c2 \<and> remainder c2 = 0 \<and> node c2 = t \<and> offset c2 = int i"
proof (cases "n = 0")
  case True
  then show ?thesis
    by (simp add: seek_def DOMTextScanner_plain [OF ruby])
next
  case False
  then have pos: "0 < n" by simp
  define v where "v = nodeValue t"
  have ord': "\<forall>u\<in>set v. ordinary u"
    using ord by (simp add: v_def list_all_iff)
  define c0 where "c0 = DOMTextScanner t (int i) fp gl"
  define cs where "cs = c0\<lparr>remainder := int n\<rparr>"
  have cs: "node cs = t" "resetOffset cs = False" "offset cs = int i" "clean cs"
    "remainder cs = int n"
    by (simp_all add: cs_def c0_def DOMTextScanner_plain [OF ruby] clean_def)
  have c0: "node c0 = t" "resetOffset c0 = False"
    by (simp_all add: c0_def DOMTextScanner_plain [OF ruby])
  obtain pn pw where ws: "getWhitespaceSettings cs t = (pn, pw)" by fastforce
  define L where "L = seekTextNodeForward_loop v pn pw cs"
  have L: "remainder L = 0" "offset L = int (skipForward v i n)" "clean L"
    using seekTextNodeForward_loop_ordinary [OF ord' cs(3) cs(4) cs(5) pos, of pn pw] n
    by (simp_all add: L_def v_def)
  have fwd: "seekTextNodeForward cs t False = (False, L)"
    using L(1) by (simp add: seekTextNodeForward_def ws L_def v_def)
  obtain nx1 ex1 where g1: "getNextNode t True False [] = (nx1, ex1)" by fastforce
  define c1 where "c1 = L\<lparr>node := t, resetOffset := False\<rparr>"
  have s1: "seek c0 (int n) = Some c1"
    using pos seek_loop_text [where forward = True, simplified, OF is_text fwd g1, of t]
    by (simp add: seek_def Let_def cs_def [symmetric] cs c0 c1_def)
  define cb where "cb = c1\<lparr>remainder := int n\<rparr>"
  have cb: "node cb = t" "resetOffset cb = False" "offset cb = int (skipForward v i n)"
    "clean cb" "remainder cb = int n"
    using L by (simp_all add: cb_def c1_def clean_def)
  obtain pn' pw' where ws': "getWhitespaceSettings cb t = (pn', pw')" by fastforce
  define B where "B = seekTextNodeBackward_loop v pn' pw' cb"
  have B: "remainder B = 0" "offset B = int i"
    using seekTextNodeBackward_loop_ordinary [OF ord' _ cb(3) cb(4) cb(5) pos, of pn' pw'] n bd
    by (simp_all add: B_def v_def)
  have bwd: "seekTextNodeBackward cb t False = (False, B)"
    using B(1) by (simp add: seekTextNodeBackward_def ws' B_def v_def Let_def)
  obtain nx2 ex2 where g2: "getNextNode t False False [] = (nx2, ex2)" by fastforce
  define c2 where "c2 = B\<lparr>node := t, resetOffset := False\<rparr>"
  have "node c1 = t" "resetOffset c1 = False" by (simp_all add: c1_def)
  then have s2: "seek c1 (- int n) = Some c2"
    using pos seek_loop_text [where forward = False, simplified, OF is_text bwd g2, of t]
    by (simp add: seek_def Let_def cb_def [symmetric] cb c2_def)
  have "remainder c1 = 0" using L(1) by (simp add: c1_def)
  moreover have "remainder c2 = 0" "node c2 = t" "offset c2 = int i"
    using B by (simp_all add: c2_def)
  ultimately show ?thesis
    using s1 s2 unfolding c0_def by blast
qed

theorem C6_round_trip_witness:
  "nodeType (document shortText) = TEXT_NODE
   \<and> getParentRubyElement (document shortText) = None
   \<and> list_all ordinary (nodeValue (document shortText))
   \<and> codePointBoundary (nodeValue (document shortText)) 0
   \<and> 2 \<le> codePoints (drop 0 (nodeValue (document shortText)))
   \<and> (\<exists>c1 c2. seek (DOMTextScanner (document shortText) (int 0) False True) (int 2) = Some c1
        \<and> remainder c1 = 0 \<and> seek c1 (- int 2) = Some c2 \<and> remainder c2 = 0
        \<and> node c2 = document shortText \<and> offset c2 = int 0)"
proof -
  have h1: "nodeType (document shortText) = TEXT_NODE" by code_simp
  have h2: "getParentRubyElement (document shortText) = None" by code_simp
  have h3: "list_all ordinary (nodeValue (document shortText))" by code_simp
  have h4: "codePointBoundary (nodeValue (document shortText)) 0" by code_simp
  have h5: "2 \<le> codePoints (drop 0 (nodeValue (document shortText)))" by code_simp
  from C6_round_trip [OF h1 h2 h3 h4 h5, of False True] h1 h2 h3 h4 h5
  show ?thesis by blast
qed

text \<open>
  C8: an element head, rt, script or style is not enterable and contributes 0 newlines;
  and a seek, in either direction, does not depend on what such an element contains
  unless the starting position lies inside it. Started at the same node of two documents
  that differ only inside skipped elements not containing that node, the two seeks
  return cursors that agree in content, remainder, offset and every other field, at the
  same node of the two documents.
\<close>

theorem C8_skipped_elements_not_entered:
  "(skippedLabel (nodeLabel e) \<longrightarrow> getElementSeekInfo e = (False, 0))
   \<and> (sameNode (node c) n' \<longrightarrow>
        (\<exists>r r'. seek c len = Some r \<and> seek (c\<lparr>node := n'\<rparr>) len = Some r'
           \<and> sameButNode r r' \<and> sameNode (node r) (node r')))"
proof (intro conjI impI)
  assume "skippedLabel (nodeLabel e)"
  then show "getElementSeekInfo e = (False, 0)" by (rule skipped_seekInfo)
next
  assume nn: "sameNode (node c) n'"
  define fwd where "fwd = (0 \<le> len)"
  define c1 where "c1 = c\<lparr>remainder := (if fwd then len else - len)\<rparr>"
  define c2 where "c2 = c\<lparr>node := n', remainder := (if fwd then len else - len)\<rparr>"
  have cc: "sameButNode c1 c2" by (simp add: c1_def c2_def sameButNode_def)
  have nodes: "node c1 = node c" "node c2 = n'" "resetOffset c2 = resetOffset c1"
    by (simp_all add: c1_def c2_def)
  show "\<exists>r r'. seek c len = Some r \<and> seek (c\<lparr>node := n'\<rparr>) len = Some r'
           \<and> sameButNode r r' \<and> sameNode (node r) (node r')"
  proof (cases "len = 0")
    case True
    then show ?thesis using nn by (simp add: seek_def sameButNode_def)
  next
    case False
    have s1: "seek c len = seek_loop fwd c1 (Some (node c)) (node c) (resetOffset c1)"
      using False by (simp add: seek_def Let_def fwd_def c1_def)
    have s2: "seek (c\<lparr>node := n'\<rparr>) len = seek_loop fwd c2 (Some n') n' (resetOffset c1)"
      using False by (simp add: seek_def Let_def fwd_def c2_def c1_def)
    have "rel_option sameResult (seek c len) (seek (c\<lparr>node := n'\<rparr>) len)"
      unfolding s1 s2 using nn cc by (intro seek_loop_same) simp_all
    moreover obtain r where "seek c len = Some r"
      using seek_loop_returns [of fwd c1 "Some (node c)" "node c" "resetOffset c1"] s1 by auto
    ultimately show ?thesis
      by (auto simp: option_rel_Some1 sameResult_def)
  qed
qed

theorem C8_skipped_elements_not_entered_witness:
  "skippedLabel (nodeLabel (nodeAt scriptedA [0]))
   \<and> getElementSeekInfo (nodeAt scriptedA [0]) = (False, 0)
   \<and> sameNode (document scriptedA) (document scriptedB)
   \<and> map_option content (seek (DOMTextScanner (document scriptedA) 0 False True) 10)
       = Some (utf16 ''foo'')
   \<and> map_option content (seek (DOMTextScanner (document scriptedB) 0 False True) 10)
       = Some (utf16 ''foo'')"
proof -
  let ?c = "DOMTextScanner (document scriptedA) 0 False True"
  have h1: "skippedLabel (nodeLabel (nodeAt scriptedA [0]))" by code_simp
  have h2: "sameNode (document scriptedA) (document scriptedB)" by code_simp
  have ra: "getParentRubyElement (document scriptedA) = None" by code_simp
  have rb: "getParentRubyElement (document scriptedB) = None" by code_simp
  have nc: "node ?c = document scriptedA"
    by (simp add: DOMTextScanner_plain [OF ra])
  have cb: "?c\<lparr>node := document scriptedB\<rparr> = DOMTextScanner (document scriptedB) 0 False True"
    by (simp add: DOMTextScanner_plain [OF ra] DOMTextScanner_plain [OF rb])
  have a: "map_option content (seek ?c 10) = Some (utf16 ''foo'')" by code_simp
  note inst = C8_skipped_elements_not_entered
    [of "nodeAt scriptedA [0]" ?c "document scriptedB" 10]
  from inst h1 have i: "getElementSeekInfo (nodeAt scriptedA [0]) = (False, 0)" by blast
  from inst h2 nc obtain r r' where "seek ?c 10 = Some r"
    and "seek (?c\<lparr>node := document scriptedB\<rparr>) 10 = Some r'" and "sameButNode r r'"
    by auto
  with a cb have "map_option content (seek (DOMTextScanner (document scriptedB) 0 False True) 10)
      = Some (utf16 ''foo'')"
    by (simp add: sameButNode_def)
  with h1 i h2 a show ?thesis by blast
qed

text \<open>
  C1: for a cursor whose offset is valid, \<open>seek(length)\<close> returns; it adds to the content
  the first characters ahead of the cursor in the direction of the scan, as many as the
  absolute value of the length when there are that many and all of them otherwise (at
  the end scanning forward, at the front scanning backward), each of them one character;
  the remainder is not negative and is the absolute value of the length less the number
  of characters added; it is 0 exactly when there were as many characters ahead as the
  length asks for. When the remainder is positive, it is the absolute value of the length
  less the number of all characters ahead, the content holds all of them, and the node is
  the last text or element node of the traversal of the document.
\<close>

theorem C1_remainder_accounting:
  assumes valid: "validOffset c"
  shows "\<exists>c'. seek c len = Some c'
     \<and> content c' =
         (if 0 \<le> len
          then content c @ concat (take (nat \<bar>len\<bar>) (visibleCharacters (0 \<le> len) c))
          else concat (rev (take (nat \<bar>len\<bar>) (visibleCharacters (0 \<le> len) c))) @ content c)
     \<and> list_all oneCharacter (visibleCharacters (0 \<le> len) c)
     \<and> remainder c' = \<bar>len\<bar> - int (length (take (nat \<bar>len\<bar>) (visibleCharacters (0 \<le> len) c)))
     \<and> 0 \<le> remainder c'
     \<and> (remainder c' = 0 \<longleftrightarrow> \<bar>len\<bar> \<le> int (length (visibleCharacters (0 \<le> len) c)))
     \<and> (0 < remainder c' \<longrightarrow>
           remainder c' = \<bar>len\<bar> - int (length (visibleCharacters (0 \<le> len) c))
           \<and> content c' =
               (if 0 \<le> len then content c @ concat (visibleCharacters (0 \<le> len) c)
                else concat (rev (visibleCharacters (0 \<le> len) c)) @ content c)
           \<and> node c' = lastVisited (node c) (traversal (0 \<le> len) (node c)))"
proof (cases "len = 0")
  case True
  then show ?thesis
    by (simp add: seek_def visibleCharacters_oneCharacter)
next
  case False
  define every where "every = visibleCharacters (0 \<le> len) c"
  from seek_took [OF valid False, folded every_def]
  obtain c' where c': "seek c len = Some c'"
    and t: "took (0 \<le> len) (c\<lparr>remainder := \<bar>len\<bar>\<rparr>) every c'"
    and l: "0 < remainder c' \<longrightarrow> node c' = lastVisited (node c) (traversal (0 \<le> len) (node c))"
    by blast
  have co: "content c' =
      (if 0 \<le> len then content c @ concat (take (nat \<bar>len\<bar>) every)
       else concat (rev (take (nat \<bar>len\<bar>) every)) @ content c)"
    and re: "remainder c' = \<bar>len\<bar> - int (length (take (nat \<bar>len\<bar>) every))"
    using t by (simp_all add: took_def)
  have nonneg: "0 \<le> remainder c'" using re by simp
  have zero: "remainder c' = 0 \<longleftrightarrow> \<bar>len\<bar> \<le> int (length every)"
    using re by auto
  have short: "take (nat \<bar>len\<bar>) every = every" if "0 < remainder c'"
  proof (rule take_all)
    from that re have "int (length (take (nat \<bar>len\<bar>) every)) < \<bar>len\<bar>" by simp
    then show "length every \<le> nat \<bar>len\<bar>" by (simp add: min_def split: if_splits)
  qed
  have one: "list_all oneCharacter every"
    unfolding every_def by (rule visibleCharacters_oneCharacter)
  have last3: "0 < remainder c' \<longrightarrow>
      remainder c' = \<bar>len\<bar> - int (length every)
      \<and> content c' = (if 0 \<le> len then content c @ concat every
                       else concat (rev every) @ content c)
      \<and> node c' = lastVisited (node c) (traversal (0 \<le> len) (node c))"
  proof
    assume p: "0 < remainder c'"
    show "remainder c' = \<bar>len\<bar> - int (length every)
      \<and> content c' = (if 0 \<le> len then content c @ concat every
                       else concat (rev every) @ content c)
      \<and> node c' = lastVisited (node c) (traversal (0 \<le> len) (node c))"
      using re co l p unfolding short [OF p] by simp
  qed
  show ?thesis
    unfolding every_def [symmetric]
    by (intro exI [of _ c'] conjI c' co re nonneg zero one last3)
qed

theorem C1_remainder_accounting_witness:
  "validOffset (DOMTextScanner (nodeAt twoBlocks [0, 0]) 0 False True)
   \<and> visibleCharacters True (DOMTextScanner (nodeAt twoBlocks [0, 0]) 0 False True)
       = [utf16 ''f'', utf16 ''o'', utf16 ''o'', [0x0A], utf16 ''b'', utf16 ''a'', utf16 ''r'']
   \<and> map_option (\<lambda>c. (content c, remainder c))
        (seek (DOMTextScanner (nodeAt twoBlocks [0, 0]) 0 False True) 10)
      = Some (utf16 ''foo'' @ [0x0A] @ utf16 ''bar'', 3)
   \<and> map_option (\<lambda>c. (content c, remainder c))
        (seek (DOMTextScanner (nodeAt twoBlocks [0, 0]) 0 False True) 5)
      = Some (utf16 ''foo'' @ [0x0A] @ utf16 ''b'', 0)
   \<and> map_option node (seek (DOMTextScanner (nodeAt twoBlocks [0, 0]) 0 False True) 10)
      = Some (nodeAt twoBlocks [1, 0])
   \<and> validOffset (DOMTextScanner (nodeAt twoBlocks [1, 0]) 3 False True)
   \<and> map_option (\<lambda>c. (content c, remainder c, node c))
        (seek (DOMTextScanner (nodeAt twoBlocks [1, 0]) 3 False True) (- 10))
      = Some (utf16 ''foo'' @ [0x0A] @ utf16 ''bar'', 3, nodeAt twoBlocks [0, 0])
   \<and> validOffset (DOMTextScanner (document spacedText) 0 False True)
   \<and> map_option (\<lambda>c. (content c, remainder c))
        (seek (DOMTextScanner (document spacedText) 0 False True) 5)
      = Some (utf16 ''a b'', 2)"
proof -
  let ?c = "DOMTextScanner (nodeAt twoBlocks [0, 0]) 0 False True"
  let ?d = "DOMTextScanner (nodeAt twoBlocks [1, 0]) 3 False True"
  let ?e = "DOMTextScanner (document spacedText) 0 False True"
  have h: "validOffset ?c" by code_simp
  have nc: "node ?c = nodeAt twoBlocks [0, 0]" and cc: "content ?c = []" by code_simp+
  have ev: "visibleCharacters True ?c
      = [utf16 ''f'', utf16 ''o'', utf16 ''o'', [0x0A], utf16 ''b'', utf16 ''a'', utf16 ''r'']"
    by code_simp
  have lv: "lastVisited (nodeAt twoBlocks [0, 0]) (traversal True (nodeAt twoBlocks [0, 0]))
      = nodeAt twoBlocks [1, 0]"
    by code_simp
  from C1_remainder_accounting [OF h, of 10]
  have a: "map_option (\<lambda>c. (content c, remainder c)) (seek ?c 10)
        = Some (utf16 ''foo'' @ [0x0A] @ utf16 ''bar'', 3)"
    and n: "map_option node (seek ?c 10) = Some (nodeAt twoBlocks [1, 0])"
    by (auto simp: ev nc cc lv utf16_def)
  from C1_remainder_accounting [OF h, of 5]
  have b: "map_option (\<lambda>c. (content c, remainder c)) (seek ?c 5)
        = Some (utf16 ''foo'' @ [0x0A] @ utf16 ''b'', 0)"
    by (auto simp: ev nc cc utf16_def)
  define d where "d = DOMTextScanner (nodeAt twoBlocks [1, 0]) 3 False True"
  define t where "t = nodeAt twoBlocks [0, 0]"
  have hd: "validOffset d" unfolding d_def by code_simp
  have cd: "content d = []" unfolding d_def by code_simp
  have evd: "visibleCharacters False d
      = [utf16 ''r'', utf16 ''a'', utf16 ''b'', [0x0A], utf16 ''o'', utf16 ''o'', utf16 ''f'']"
    unfolding d_def by code_simp
  have lvd: "lastVisited (node d) (traversal False (node d)) = t"
    unfolding d_def t_def by code_simp
  from C1_remainder_accounting [OF hd, of "- 10"]
  have "map_option (\<lambda>c. (content c, remainder c, node c)) (seek d (- 10))
        = Some (utf16 ''foo'' @ [0x0A] @ utf16 ''bar'', 3, t)"
    by (auto simp: evd cd lvd utf16_def)
  then have d: "map_option (\<lambda>c. (content c, remainder c, node c)) (seek ?d (- 10))
        = Some (utf16 ''foo'' @ [0x0A] @ utf16 ''bar'', 3, nodeAt twoBlocks [0, 0])"
    unfolding d_def t_def .
  have hd: "validOffset ?d" using hd unfolding d_def .
  have he: "validOffset ?e" by code_simp
  have ce: "content ?e = []" by code_simp
  have eve: "visibleCharacters True ?e = [utf16 ''a'', utf16 '' '', utf16 ''b'']"
    by code_simp
  from C1_remainder_accounting [OF he, of 5]
  have e: "map_option (\<lambda>c. (content c, remainder c)) (seek ?e 5) = Some (utf16 ''a b'', 2)"
    by (auto simp: eve ce utf16_def)
  from h ev a b n hd d he e show ?thesis by blast
qed

end
